theory Spec2Isabelle
  imports Complex_Main "HOL-Library.AList" "HOL-Library.Multiset" "HOL-Library.Product_Lexorder"
    "HOL-Library.Code_Target_Nat"
begin

section \<open>Python strings\<close>

text \<open>
  A Python \<^verbatim>\<open>str\<close> is a sequence of Unicode code points; a code point is a natural
  number here, so that the en dash (8211) and the em dash (8212) of the date pattern
  are single characters as in Python. The classes \<^verbatim>\<open>\d\<close>, \<^verbatim>\<open>\s\<close>, \<^verbatim>\<open>\w\<close> and the case
  mappings are written out for the ASCII range; beyond it Python consults the Unicode
  database, which is not modelled (a code point above 127 is neither digit, space nor
  word character here, and is its own lower case).
\<close>

type_synonym uchar = nat
type_synonym ustring = "nat list"

definition ustr :: "string \<Rightarrow> ustring" where
  "ustr s = map of_char s"

definition is_digit :: "uchar \<Rightarrow> bool" where
  "is_digit c = (48 \<le> c \<and> c \<le> 57)"

definition is_space :: "uchar \<Rightarrow> bool" where
  "is_space c = ((9 \<le> c \<and> c \<le> 13) \<or> (28 \<le> c \<and> c \<le> 32))"

definition is_word :: "uchar \<Rightarrow> bool" where
  "is_word c = ((48 \<le> c \<and> c \<le> 57) \<or> (65 \<le> c \<and> c \<le> 90) \<or> c = 95 \<or> (97 \<le> c \<and> c \<le> 122))"

definition lower_chr :: "uchar \<Rightarrow> uchar" where
  "lower_chr c = (if 65 \<le> c \<and> c \<le> 90 then c + 32 else c)"

definition upper_chr :: "uchar \<Rightarrow> uchar" where
  "upper_chr c = (if 97 \<le> c \<and> c \<le> 122 then c - 32 else c)"

text \<open>\<^verbatim>\<open>s.lower()\<close>, \<^verbatim>\<open>s.strip()\<close>, \<^verbatim>\<open>sep.join(xs)\<close>, \<^verbatim>\<open>s.endswith(suf)\<close>,
  \<^verbatim>\<open>s[i:j]\<close> for \<^verbatim>\<open>0 <= i\<close>, \<^verbatim>\<open>s[-4:]\<close> and \<^verbatim>\<open>s.replace('\n', ' ')\<close>.\<close>

definition lower :: "ustring \<Rightarrow> ustring" where
  "lower s = map lower_chr s"

definition strip :: "ustring \<Rightarrow> ustring" where
  "strip s = rev (dropWhile is_space (rev (dropWhile is_space s)))"

fun join :: "ustring \<Rightarrow> ustring list \<Rightarrow> ustring" where
  "join sep [] = []"
| "join sep [x] = x"
| "join sep (x # y # ys) = x @ sep @ join sep (y # ys)"

definition endswith :: "ustring \<Rightarrow> ustring \<Rightarrow> bool" where
  "endswith s suf = (length suf \<le> length s \<and> drop (length s - length suf) s = suf)"

definition slice :: "ustring \<Rightarrow> nat \<Rightarrow> nat \<Rightarrow> ustring" where
  "slice s i j = take (j - i) (drop i s)"

definition last4 :: "ustring \<Rightarrow> ustring" where
  "last4 s = drop (length s - 4) s"

definition replace_newlines :: "ustring \<Rightarrow> ustring" where
  "replace_newlines s = map (\<lambda>c. if c = 10 then 32 else c) s"

section \<open>The regular expressions of module \<^verbatim>\<open>re\<close>\<close>

text \<open>
  The patterns of the program use literals, classes, the dot, \<^verbatim>\<open>\b\<close>, concatenation,
  alternation, the greedy \<^verbatim>\<open>*\<close>, \<^verbatim>\<open>+\<close>, \<^verbatim>\<open>?\<close>, \<^verbatim>\<open>{4}\<close> and capturing groups. A pattern is a
  syntax tree; \<open>run\<close> is the backtracking matcher: it returns every way the pattern
  can match at the cursor, in the order in which Python's engine tries them (the left
  alternative first, the longer repetition first), so the head of the list is the match
  Python reports.
\<close>

datatype citem = CChar uchar | CRange uchar uchar | CDigit | CSpace

datatype rx =
    Empty
  | Lit uchar
  | In "citem list"
  | Dot
  | WordB
  | Seq rx rx
  | Alt rx rx
  | Star rx
  | Group nat rx

text \<open>The cursor: the text before it (latest character first), the text after it,
  and the groups captured so far (latest first).\<close>

record mstate =
  seen :: ustring
  rest :: ustring
  caps :: "(nat \<times> ustring) list"

text \<open>With \<^verbatim>\<open>re.IGNORECASE\<close> (\<open>ic\<close>) a literal matches both cases and a range matches a
  character whose lower or upper case lies in it.\<close>

fun in_item :: "bool \<Rightarrow> uchar \<Rightarrow> citem \<Rightarrow> bool" where
  "in_item ic c (CChar d) = (if ic then lower_chr c = lower_chr d else c = d)"
| "in_item ic c (CRange lo hi) =
     (if ic then (lo \<le> lower_chr c \<and> lower_chr c \<le> hi) \<or> (lo \<le> upper_chr c \<and> upper_chr c \<le> hi)
      else lo \<le> c \<and> c \<le> hi)"
| "in_item ic c CDigit = is_digit c"
| "in_item ic c CSpace = is_space c"

definition step :: "(uchar \<Rightarrow> bool) \<Rightarrow> mstate \<Rightarrow> mstate list" where
  "step p st = (case rest st of [] \<Rightarrow> []
      | c # cs \<Rightarrow> if p c then [st\<lparr>seen := c # seen st, rest := cs\<rparr>] else [])"

text \<open>\<^verbatim>\<open>\b\<close>: exactly one of the two neighbours of the cursor is a word character; the
  outside of the text counts as a non-word character.\<close>

definition at_boundary :: "ustring \<Rightarrow> ustring \<Rightarrow> bool" where
  "at_boundary sn rs =
     ((case sn of [] \<Rightarrow> False | c # _ \<Rightarrow> is_word c) \<noteq>
      (case rs of [] \<Rightarrow> False | c # _ \<Rightarrow> is_word c))"

definition consumed :: "mstate \<Rightarrow> mstate \<Rightarrow> ustring" where
  "consumed st st' = take (length (rest st) - length (rest st')) (rest st)"

function run :: "bool \<Rightarrow> rx \<Rightarrow> mstate \<Rightarrow> mstate list" where
  "run ic Empty st = [st]"
| "run ic (Lit d) st = step (\<lambda>c. if ic then lower_chr c = lower_chr d else c = d) st"
| "run ic (In items) st = step (\<lambda>c. list_ex (in_item ic c) items) st"
| "run ic Dot st = step (\<lambda>c. c \<noteq> 10) st"
| "run ic WordB st = (if at_boundary (seen st) (rest st) then [st] else [])"
| "run ic (Seq a b) st = concat (map (run ic b) (run ic a st))"
| "run ic (Alt a b) st = run ic a st @ run ic b st"
| "run ic (Star a) st =
     concat (map (\<lambda>st'. if length (rest st') < length (rest st) then run ic (Star a) st' else [])
                 (run ic a st)) @ [st]"
| "run ic (Group n a) st =
     map (\<lambda>st'. st'\<lparr>caps := (n, consumed st st') # caps st'\<rparr>) (run ic a st)"
  by pat_completeness auto
termination
  by (relation "inv_image (less_than <*lex*> less_than) (\<lambda>(ic, r, st). (size r, length (rest st)))")
     auto

text \<open>The derived forms: a literal string, \<^verbatim>\<open>r?\<close>, \<^verbatim>\<open>r+\<close>, \<^verbatim>\<open>r{n}\<close>, a concatenation and
  an alternation of several patterns.\<close>

definition ch :: "char \<Rightarrow> uchar" where
  "ch c = of_char c"

definition lits :: "ustring \<Rightarrow> rx" where
  "lits s = foldr (\<lambda>c r. Seq (Lit c) r) s Empty"

definition lit :: "string \<Rightarrow> rx" where
  "lit s = lits (ustr s)"

definition opt :: "rx \<Rightarrow> rx" where
  "opt a = Alt a Empty"

definition many1 :: "rx \<Rightarrow> rx" where
  "many1 a = Seq a (Star a)"

definition rep :: "nat \<Rightarrow> rx \<Rightarrow> rx" where
  "rep n a = foldr Seq (replicate n a) Empty"

definition cat :: "rx list \<Rightarrow> rx" where
  "cat rs = foldr Seq rs Empty"

fun alts :: "rx list \<Rightarrow> rx" where
  "alts [] = In []"
| "alts [r] = r"
| "alts (r # rs) = Alt r (alts rs)"

definition digit :: rx where
  "digit = In [CDigit]"

definition space :: rx where
  "space = In [CSpace]"

text \<open>A match consumes a prefix of the text after the cursor and moves it before the
  cursor; the scanner's termination rests on it.\<close>

declare run.simps(8) [simp del]

lemma step_sound:
  "st' \<in> set (step p st) \<Longrightarrow> \<exists>c. p c \<and> rest st = c # rest st' \<and> seen st' = c # seen st \<and> caps st' = caps st"
  by (auto simp: step_def split: list.splits if_splits)

lemma step_suffix:
  assumes "st' \<in> set (step p st)"
  shows "\<exists>w. rest st = w @ rest st' \<and> seen st' = rev w @ seen st"
proof -
  from step_sound[OF assms] obtain c where "rest st = c # rest st'" "seen st' = c # seen st"
    by blast
  then show ?thesis by (intro exI[of _ "[c]"]) simp
qed

lemma run_Star_iff:
  "st' \<in> set (run ic (Star a) st) \<longleftrightarrow>
     st' = st \<or> (\<exists>s1 \<in> set (run ic a st). length (rest s1) < length (rest st) \<and> st' \<in> set (run ic (Star a) s1))"
  by (subst run.simps(8)) (auto split: if_splits)

lemma run_suffix:
  "st' \<in> set (run ic r st) \<Longrightarrow> \<exists>w. rest st = w @ rest st' \<and> seen st' = rev w @ seen st"
proof (induction ic r st arbitrary: st' rule: run.induct)
  case (1 ic st)
  then show ?case by simp
next
  case (2 ic d st)
  then show ?case by (simp add: step_suffix)
next
  case (3 ic items st)
  then show ?case by (simp add: step_suffix)
next
  case (4 ic st)
  then show ?case by (simp add: step_suffix)
next
  case (5 ic st)
  then show ?case by (simp split: if_splits)
next
  case (6 ic a b st)
  from "6.prems" obtain s1 where s1: "s1 \<in> set (run ic a st)" and s2: "st' \<in> set (run ic b s1)"
    by auto
  from "6.IH"(1)[OF s1] obtain u where u: "rest st = u @ rest s1" "seen s1 = rev u @ seen st" by blast
  from "6.IH"(2)[OF s1 s2] obtain v where v: "rest s1 = v @ rest st'" "seen st' = rev v @ seen s1" by blast
  show ?case using u v by (intro exI[of _ "u @ v"]) simp
next
  case (7 ic a b st)
  from "7.prems" have "st' \<in> set (run ic a st) \<or> st' \<in> set (run ic b st)" by simp
  then show ?case using "7.IH" by blast
next
  case (8 ic a st)
  from "8.prems" consider (stop) "st' = st"
    | (iter) s1 where "s1 \<in> set (run ic a st)" "length (rest s1) < length (rest st)"
        "st' \<in> set (run ic (Star a) s1)"
    using run_Star_iff[of st' ic a st] by blast
  then show ?case
  proof cases
    case stop
    then show ?thesis by simp
  next
    case iter
    from "8.IH"(1)[OF iter(1)] obtain u where u: "rest st = u @ rest s1" "seen s1 = rev u @ seen st" by blast
    from "8.IH"(2)[OF iter(1) iter(2) iter(3)] obtain v where v: "rest s1 = v @ rest st'" "seen st' = rev v @ seen s1" by blast
    show ?thesis using u v by (intro exI[of _ "u @ v"]) simp
  qed
next
  case (9 ic n a st)
  from "9.prems" obtain s1 where s1: "s1 \<in> set (run ic a st)" and eq: "st' = s1\<lparr>caps := (n, consumed st s1) # caps s1\<rparr>"
    by auto
  from "9.IH"[OF s1] obtain u where "rest st = u @ rest s1" "seen s1 = rev u @ seen st" by blast
  with eq show ?case by (intro exI[of _ u]) simp
qed

lemma run_rest_le: "st' \<in> set (run ic r st) \<Longrightarrow> length (rest st') \<le> length (rest st)"
  by (drule run_suffix) auto


subsection \<open>\<^verbatim>\<open>re.finditer\<close>, \<^verbatim>\<open>re.findall\<close>, \<^verbatim>\<open>re.split\<close>\<close>

record rmatch =
  m_start :: nat
  m_end :: nat
  m_group0 :: ustring
  m_groups :: "(nat \<times> ustring) list"

definition group :: "rmatch \<Rightarrow> nat \<Rightarrow> ustring option" where
  "group m n = map_of (m_groups m) n"

definition mk_match :: "mstate \<Rightarrow> mstate \<Rightarrow> rmatch" where
  "mk_match st st' =
     \<lparr>m_start = length (seen st), m_end = length (seen st'),
      m_group0 = consumed st st', m_groups = caps st'\<rparr>"

text \<open>
  The scanner behind \<^verbatim>\<open>finditer\<close>, \<^verbatim>\<open>findall\<close> and \<^verbatim>\<open>split\<close>: the leftmost match from the
  cursor on, then the next one from its end. After an empty match the next match at the
  same place must be non-empty (\<open>adv\<close>, CPython's \<^verbatim>\<open>must_advance\<close>).
\<close>

definition admissible :: "bool \<Rightarrow> mstate \<Rightarrow> mstate \<Rightarrow> bool" where
  "admissible adv st st' = (if adv then length (rest st') < length (rest st) else True)"

function scan :: "bool \<Rightarrow> rx \<Rightarrow> bool \<Rightarrow> mstate \<Rightarrow> rmatch list" where
  "scan ic r adv st =
     (case filter (admissible adv st) (run ic r (st\<lparr>caps := []\<rparr>)) of
        st' # _ \<Rightarrow> mk_match st st' # scan ic r (length (rest st') = length (rest st)) st'
      | [] \<Rightarrow> (case rest st of
                 [] \<Rightarrow> []
               | c # cs \<Rightarrow> scan ic r False (st\<lparr>seen := c # seen st, rest := cs\<rparr>)))"
  by pat_completeness auto
termination
proof (relation "inv_image (less_than <*lex*> less_than)
                   (\<lambda>(ic, r, adv, st). (length (rest st), if adv then 0 else (1::nat)))",
       goal_cases)
  case 1
  show ?case by auto
next
  case (2 ic r adv st c cs)
  then show ?case by simp
next
  case (3 ic r adv st st' sts)
  then have "st' \<in> set (filter (admissible adv st) (run ic r (st\<lparr>caps := []\<rparr>)))"
    by simp
  then have ok: "admissible adv st st'" and mem: "st' \<in> set (run ic r (st\<lparr>caps := []\<rparr>))"
    by simp_all
  from run_rest_le[OF mem] have "length (rest st') \<le> length (rest st)"
    by simp
  with ok show ?case
    by (simp add: admissible_def split: if_splits)
qed

declare scan.simps [simp del]

definition finditer :: "bool \<Rightarrow> rx \<Rightarrow> ustring \<Rightarrow> rmatch list" where
  "finditer ic r text = scan ic r False \<lparr>seen = [], rest = text, caps = []\<rparr>"

definition findall :: "bool \<Rightarrow> rx \<Rightarrow> ustring \<Rightarrow> ustring list" where
  "findall ic r text = map m_group0 (finditer ic r text)"

text \<open>\<^verbatim>\<open>re.split\<close>: the pieces of the text between the matches.\<close>

fun split_at :: "ustring \<Rightarrow> nat \<Rightarrow> rmatch list \<Rightarrow> ustring list" where
  "split_at text k [] = [drop k text]"
| "split_at text k (m # ms) = slice text k (m_start m) # split_at text (m_end m) ms"

definition re_split :: "bool \<Rightarrow> rx \<Rightarrow> ustring \<Rightarrow> ustring list" where
  "re_split ic r text = split_at text 0 (finditer ic r text)"


section \<open>\<^verbatim>\<open>float\<close> and \<^verbatim>\<open>datetime\<close>\<close>

text \<open>
  Python's floats are modelled as real numbers: rounding is not modelled.
  \<open>float_of\<close> is \<^verbatim>\<open>float(s)\<close> on unsigned decimal literals (digits, an optional point,
  digits; at least one digit); on any other string it is \<open>None\<close>, which stands for the
  \<^verbatim>\<open>ValueError\<close>. Signs, exponents, blanks and the special values that Python accepts as
  well are left out: group 1 of the experience patterns never holds them
  (lemma \<open>float_of_number\<close> below).
\<close>

definition dec_value :: "ustring \<Rightarrow> nat" where
  "dec_value ds = foldl (\<lambda>n c. 10 * n + (c - 48)) 0 ds"

definition float_of :: "ustring \<Rightarrow> real option" where
  "float_of s =
     (let ip = takeWhile is_digit s; r = dropWhile is_digit s in
      case r of
        [] \<Rightarrow> if ip = [] then None else Some (real (dec_value ip))
      | c # fp \<Rightarrow>
          if c = 46 \<and> list_all is_digit fp \<and> \<not> (ip = [] \<and> fp = [])
          then Some (real (dec_value ip) + real (dec_value fp) / 10 ^ length fp)
          else None)"

text \<open>
  \<^verbatim>\<open>datetime.strptime(s, "%b %Y")\<close>: a month abbreviation in any case, white space, four
  digits and nothing else; the year 0 is refused. The result is the year and the month
  (the day is 1). \<open>None\<close> stands for the \<^verbatim>\<open>ValueError\<close>.
\<close>

definition month_abbr :: "ustring list" where
  "month_abbr = map ustr [''jan'', ''feb'', ''mar'', ''apr'', ''may'', ''jun'',
                          ''jul'', ''aug'', ''sep'', ''oct'', ''nov'', ''dec'']"

fun index_of :: "'a \<Rightarrow> 'a list \<Rightarrow> nat option" where
  "index_of x [] = None"
| "index_of x (y # ys) = (if x = y then Some 0 else map_option Suc (index_of x ys))"

definition strptime_bY :: "ustring \<Rightarrow> (nat \<times> nat) option" where
  "strptime_bY s =
     (let r = drop 3 s; ys = dropWhile is_space r in
      if length ys < length r \<and> length ys = 4 \<and> list_all is_digit ys then
        (case index_of (lower (take 3 s)) month_abbr of
           None \<Rightarrow> None
         | Some i \<Rightarrow> if dec_value ys = 0 then None else Some (dec_value ys, Suc i))
      else None)"

text \<open>The proleptic Gregorian ordinal of the first day of a month, as \<^verbatim>\<open>datetime\<close> computes
  it; the difference of two of them is \<^verbatim>\<open>(end - start).days\<close>.\<close>

definition is_leap :: "nat \<Rightarrow> bool" where
  "is_leap y = (y mod 4 = 0 \<and> (if y mod 100 = 0 then y mod 400 = 0 else True))"

definition days_before_year :: "nat \<Rightarrow> int" where
  "days_before_year y =
     (let y1 = int y - 1 in y1 * 365 + y1 div 4 - y1 div 100 + y1 div 400)"

definition days_before_month :: "nat \<Rightarrow> nat \<Rightarrow> int" where
  "days_before_month y m =
     [0, 31, 59, 90, 120, 151, 181, 212, 243, 273, 304, 334] ! (m - 1)
       + (if 2 < m \<and> is_leap y then 1 else 0)"

definition toordinal :: "nat \<times> nat \<Rightarrow> int" where
  "toordinal d = (case d of (y, m) \<Rightarrow> days_before_year y + days_before_month y m + 1)"


section \<open>\<^verbatim>\<open>ResumeFilter\<close>\<close>

datatype error = ZeroDivisionError

record ResumeFilter =
  job_description :: ustring
  mandatory :: "ustring list"
  optional :: "ustring list"
  min_experience :: real

text \<open>\<^verbatim>\<open>__init__\<close>: the keywords are stored in lower case.\<close>

definition init :: "ustring \<Rightarrow> ustring list \<Rightarrow> ustring list \<Rightarrow> real \<Rightarrow> ResumeFilter" where
  "init jd mandatory_keywords optional_keywords min_exp =
     \<lparr>job_description = jd,
      mandatory = map lower mandatory_keywords,
      optional = map lower optional_keywords,
      min_experience = min_exp\<rparr>"

subsection \<open>\<^verbatim>\<open>extract_experience\<close>\<close>

text \<open>\<^verbatim>\<open>\d+\.?\d*\<close> and \<^verbatim>\<open>years?|yrs?\<close>, the parts the five patterns share.\<close>

definition number_rx :: rx where
  "number_rx = cat [many1 digit, opt (Lit (ch CHR ''.'')), Star digit]"

definition years_rx :: rx where
  "years_rx = Alt (cat [lit ''year'', opt (Lit (ch CHR ''s''))])
                  (cat [lit ''yr'', opt (Lit (ch CHR ''s''))])"

definition patterns :: "rx list" where
  "patterns =
    [cat [Group 1 number_rx, Star space, Group 2 years_rx, Star space,
          Group 3 (Alt (lit ''experience'') (lit ''exp''))],
     cat [lit ''experience'', Star space, Lit (ch CHR '':''), Star space,
          Group 1 number_rx, Star space, Group 2 years_rx],
     cat [Group 1 (many1 digit), opt (Lit (ch CHR ''+'')), Star space, Group 2 years_rx,
          Star space, lit ''in'', Star space, Star Dot,
          Group 3 (Alt (lit ''experience'') (lit ''exp''))],
     cat [Group 1 number_rx, Star space, Group 2 years_rx, Star space, lit ''professional''],
     cat [Group 1 (many1 digit), Star space, Group 2 years_rx, Star space, lit ''relevant'']]"

text \<open>The loop over the matches of one pattern: the first match whose group 1 converts
  is returned; a failed conversion is caught and the loop continues.\<close>

fun first_float :: "rmatch list \<Rightarrow> real option" where
  "first_float [] = None"
| "first_float (m # ms) =
     (case group m 1 of
        None \<Rightarrow> first_float ms
      | Some g \<Rightarrow> (case float_of g of None \<Rightarrow> first_float ms | Some v \<Rightarrow> Some v))"

text \<open>The loop over the patterns.\<close>

fun explicit_experience :: "rx list \<Rightarrow> ustring \<Rightarrow> real option" where
  "explicit_experience [] text = None"
| "explicit_experience (p # ps) text =
     (case first_float (finditer False p text) of
        None \<Rightarrow> explicit_experience ps text
      | Some v \<Rightarrow> Some v)"

definition month_rx :: rx where
  "month_rx = alts (map lit [''jan'', ''feb'', ''mar'', ''apr'', ''may'', ''jun'',
                             ''jul'', ''aug'', ''sep'', ''oct'', ''nov'', ''dec''])"

definition dash :: rx where
  "dash = In [CChar (ch CHR ''-''), CChar 8211, CChar 8212]"

text \<open>The alternation is the outermost operator of the pattern: a month range, or the
  word \<^verbatim>\<open>present\<close> alone.\<close>

definition date_pattern :: rx where
  "date_pattern =
     Alt (cat [month_rx, Star (In [CRange (ch CHR ''a'') (ch CHR ''z'')]), Star space, rep 4 digit,
               Star space, dash, Star space,
               month_rx, Star (In [CRange (ch CHR ''a'') (ch CHR ''z'')]), Star space, rep 4 digit])
         (cat [WordB, lit ''present'', WordB])"

definition dash_sep :: rx where
  "dash_sep = cat [Star space, dash, Star space]"

text \<open>
  The body of the \<^verbatim>\<open>try\<close> for one date range, up to the duration: \<open>None\<close> when the
  iteration ends with \<^verbatim>\<open>continue\<close> (the split does not give two parts, or \<^verbatim>\<open>strptime\<close>
  raises). \<open>now\<close> is what \<^verbatim>\<open>datetime.now().strftime("%b %Y")\<close> returns.
\<close>

definition range_duration :: "ustring \<Rightarrow> ustring \<Rightarrow> real option" where
  "range_duration now date_range =
     (let dates = re_split False dash_sep date_range in
      if length dates = 2 then
        (let start_date = strip (dates ! 0);
             end_date0 = strip (dates ! 1);
             end_date = (if lower end_date0 = ustr ''present'' then now else end_date0)
         in case strptime_bY (take 3 start_date @ ustr '' '' @ last4 start_date) of
              None \<Rightarrow> None
            | Some start \<Rightarrow>
                (case strptime_bY (take 3 end_date @ ustr '' '' @ last4 end_date) of
                   None \<Rightarrow> None
                 | Some end \<Rightarrow> Some (real_of_int (toordinal end - toordinal start) / 365.25)))
      else None)"

text \<open>The loop over the date ranges, with its two accumulators.\<close>

fun date_loop :: "ustring \<Rightarrow> ustring list \<Rightarrow> real \<times> nat \<Rightarrow> real \<times> nat" where
  "date_loop now [] acc = acc"
| "date_loop now (date_range # drs) (total_experience, valid_ranges) =
     (case range_duration now date_range of
        None \<Rightarrow> date_loop now drs (total_experience, valid_ranges)
      | Some duration \<Rightarrow>
          if 0 < duration
          then date_loop now drs (total_experience + duration, valid_ranges + 1)
          else date_loop now drs (total_experience, valid_ranges))"

definition extract_experience :: "ustring \<Rightarrow> ustring \<Rightarrow> real option" where
  "extract_experience now text =
     (case explicit_experience patterns text of
        Some v \<Rightarrow> Some v
      | None \<Rightarrow>
          (case date_loop now (findall True date_pattern text) (0, 0) of
             (total_experience, valid_ranges) \<Rightarrow>
               if 0 < valid_ranges then Some total_experience else None))"

subsection \<open>\<^verbatim>\<open>analyze_resume\<close>\<close>

text \<open>\<^verbatim>\<open>r'\b' + re.escape(kw) + r'\b'\<close>: the escaped keyword compiles to the sequence of
  its characters as literals.\<close>

definition kw_pattern :: "ustring \<Rightarrow> rx" where
  "kw_pattern kw = cat [WordB, lits kw, WordB]"

definition context_of :: "ustring \<Rightarrow> rmatch \<Rightarrow> ustring" where
  "context_of text m =
     strip (replace_newlines (slice text (m_start m - 50) (min (length text) (m_end m + 50))))"

text \<open>The dictionaries keep their keys in insertion order; a missing key of a
  \<^verbatim>\<open>defaultdict\<close> reads as 0 or as the empty list.\<close>

definition get_count :: "(ustring \<times> nat) list \<Rightarrow> ustring \<Rightarrow> nat" where
  "get_count counts kw = (case map_of counts kw of None \<Rightarrow> 0 | Some n \<Rightarrow> n)"

definition add_section ::
  "ustring \<Rightarrow> ustring \<Rightarrow> (ustring \<times> ustring list) list \<Rightarrow> (ustring \<times> ustring list) list" where
  "add_section kw context sections =
     AList.update kw ((case map_of sections kw of None \<Rightarrow> [] | Some cs \<Rightarrow> cs) @ [context]) sections"

text \<open>The loop over the matches of one mandatory keyword.\<close>

fun match_loop ::
  "ustring \<Rightarrow> ustring \<Rightarrow> rmatch list \<Rightarrow> nat \<times> (ustring \<times> ustring list) list
     \<Rightarrow> nat \<times> (ustring \<times> ustring list) list" where
  "match_loop text kw [] acc = acc"
| "match_loop text kw (m # ms) (count', sections) =
     match_loop text kw ms (count' + 1, add_section kw (context_of text m) sections)"

text \<open>The loop over the mandatory keywords: the missing ones, the counts, the contexts.\<close>

fun mandatory_loop ::
  "ustring \<Rightarrow> ustring list
     \<Rightarrow> ustring list \<times> (ustring \<times> nat) list \<times> (ustring \<times> ustring list) list
     \<Rightarrow> ustring list \<times> (ustring \<times> nat) list \<times> (ustring \<times> ustring list) list" where
  "mandatory_loop text [] acc = acc"
| "mandatory_loop text (kw # kws) (missing, counts, sections) =
     (case match_loop text kw (finditer False (kw_pattern kw) text) (0, sections) of
        (count', sections') \<Rightarrow>
          mandatory_loop text kws
            (if count' = 0 then missing @ [kw] else missing,
             AList.update kw count' counts,
             sections'))"

fun optional_loop :: "ustring \<Rightarrow> ustring list \<Rightarrow> (ustring \<times> nat) list \<Rightarrow> (ustring \<times> nat) list" where
  "optional_loop text [] counts = counts"
| "optional_loop text (kw # kws) counts =
     optional_loop text kws
       (AList.update kw (length (findall False (kw_pattern kw) text)) counts)"

record analysis =
  missing_mandatory :: "ustring list"
  keyword_counts :: "(ustring \<times> nat) list"
  found_sections :: "(ustring \<times> ustring list) list"
  experience :: "real option"
  score :: real

text \<open>The experience bonus; the division raises when the minimum is 0.\<close>

definition exp_bonus :: "real option \<Rightarrow> real \<Rightarrow> nat \<Rightarrow> error + real" where
  "exp_bonus xp min_exp base =
     (case xp of
        None \<Rightarrow> Inr 0
      | Some e \<Rightarrow>
          if min_exp \<le> e then
            (if min_exp = 0 then Inl ZeroDivisionError
             else Inr (min (e / min_exp) 1.2 * real base * 0.2))
          else Inr 0)"

definition analyze_resume :: "ResumeFilter \<Rightarrow> ustring \<Rightarrow> ustring \<Rightarrow> error + analysis" where
  "analyze_resume rf now text =
     (case mandatory_loop text (mandatory rf) ([], [], []) of
        (missing, counts0, sections) \<Rightarrow>
          (let counts = optional_loop text (optional rf) counts0;
               xp = extract_experience now text;
               mandatory_score = sum_list (map (\<lambda>kw. get_count counts kw * 3) (mandatory rf));
               optional_score = sum_list (map (\<lambda>kw. get_count counts kw) (optional rf))
           in case exp_bonus xp (min_experience rf) (mandatory_score + optional_score) of
                Inl e \<Rightarrow> Inl e
              | Inr bonus \<Rightarrow>
                  Inr \<lparr>missing_mandatory = missing,
                       keyword_counts = counts,
                       found_sections = sections,
                       experience = xp,
                       score = real mandatory_score + real optional_score + bonus\<rparr>))"


subsection \<open>\<^verbatim>\<open>extract_text\<close>\<close>

text \<open>
  A resume file is what the program observes of it: its name (\<^verbatim>\<open>resume_filter.py\<close>: the
  entry of \<^verbatim>\<open>os.listdir\<close>, which ends the path it opens; \<^verbatim>\<open>gradioApp.py\<close>: the path) and what
  the libraries return for it, each either a value or an exception with its message:
  the text of every page from \<^verbatim>\<open>pdfplumber\<close> (\<open>None\<close> for a page without text), the text
  of every page image from \<^verbatim>\<open>pytesseract\<close>, and the paragraphs and tables (rows of cells)
  from \<^verbatim>\<open>docx\<close>.
\<close>

datatype 'a outcome = Returns 'a | Raises ustring

record resume_file =
  path :: ustring
  pdf_pages :: "ustring option list outcome"
  ocr_pages :: "ustring list outcome"
  docx :: "(ustring list \<times> ustring list list list) outcome"

definition page_text :: "ustring option \<Rightarrow> ustring" where
  "page_text p = (case p of None \<Rightarrow> [] | Some t \<Rightarrow> t)"

definition is_pdf :: "ustring \<Rightarrow> bool" where
  "is_pdf p = endswith (lower p) (ustr ''.pdf'')"

definition is_doc :: "ustring \<Rightarrow> bool" where
  "is_doc p = (endswith (lower p) (ustr ''.docx'') \<or> endswith (lower p) (ustr ''.doc''))"

text \<open>The text when the \<^verbatim>\<open>try\<close> block ends, or the message of the exception that ended
  it together with the value \<^verbatim>\<open>text\<close> has at that moment.\<close>

definition read_text :: "resume_file \<Rightarrow> (ustring \<times> ustring) + ustring" where
  "read_text f =
     (if is_pdf (path f) then
        (case pdf_pages f of
           Raises e \<Rightarrow> Inl (e, [])
         | Returns pages \<Rightarrow>
             (let text = join (ustr ''\<newline>'') (map page_text pages) in
              if strip text = [] then
                (case ocr_pages f of
                   Raises e \<Rightarrow> Inl (e, text)
                 | Returns images \<Rightarrow> Inr (join (ustr ''\<newline>'') images))
              else Inr text))
      else if is_doc (path f) then
        (case docx f of
           Raises e \<Rightarrow> Inl (e, [])
         | Returns (paragraphs, tables) \<Rightarrow>
             Inr (join (ustr ''\<newline>'') (paragraphs @ concat (concat tables))))
      else Inr [])"

text \<open>\<^verbatim>\<open>resume_filter.py\<close>: the exception is printed and the text so far is returned, in
  lower case.\<close>

definition extract_text :: "resume_file \<Rightarrow> ustring" where
  "extract_text f = (case read_text f of Inl (e, text) \<Rightarrow> lower text | Inr text \<Rightarrow> lower text)"

text \<open>\<^verbatim>\<open>gradioApp.py\<close>: the \<^verbatim>\<open>except\<close> branch returns the error message as the text.\<close>

definition extract_text_gradio :: "resume_file \<Rightarrow> ustring" where
  "extract_text_gradio f =
     (case read_text f of
        Inl (e, text) \<Rightarrow> ustr ''Error processing '' @ path f @ ustr '': '' @ e
      | Inr text \<Rightarrow> lower text)"

subsection \<open>\<^verbatim>\<open>process_resumes\<close>\<close>

record candidate = analysis +
  filename :: ustring
  experience_met :: bool

definition exp_met :: "ResumeFilter \<Rightarrow> analysis \<Rightarrow> bool" where
  "exp_met rf a = (case experience a of None \<Rightarrow> False | Some e \<Rightarrow> min_experience rf \<le> e)"

definition make_candidate :: "ResumeFilter \<Rightarrow> ustring \<Rightarrow> analysis \<Rightarrow> candidate" where
  "make_candidate rf name a =
     \<lparr>missing_mandatory = missing_mandatory a,
      keyword_counts = keyword_counts a,
      found_sections = found_sections a,
      experience = experience a,
      score = score a,
      filename = name,
      experience_met = exp_met rf a\<rparr>"

text \<open>The loop over the files; an exception of \<^verbatim>\<open>analyze_resume\<close> is not caught and ends
  the batch.\<close>

fun process_loop ::
  "ResumeFilter \<Rightarrow> ustring \<Rightarrow> resume_file list \<Rightarrow> candidate list \<Rightarrow> error + candidate list" where
  "process_loop rf now [] results = Inr results"
| "process_loop rf now (f # fs) results =
     (if is_pdf (path f) \<or> is_doc (path f) then
        (let text = extract_text f in
         if strip text = [] then process_loop rf now fs results
         else
           (case analyze_resume rf now text of
              Inl e \<Rightarrow> Inl e
            | Inr a \<Rightarrow>
                if missing_mandatory a = []
                then process_loop rf now fs (results @ [make_candidate rf (path f) a])
                else process_loop rf now fs results))
      else process_loop rf now fs results)"

text \<open>\<^verbatim>\<open>key=lambda x: (-x['score'], -x['experience_met'])\<close>; tuples compare
  lexicographically and \<^verbatim>\<open>True\<close> counts as 1. \<^verbatim>\<open>list.sort\<close> is stable, as \<open>sort_key\<close> is.\<close>

definition rank_key :: "candidate \<Rightarrow> real \<times> int" where
  "rank_key x = (- score x, - (if experience_met x then 1 else 0))"

definition process_resumes :: "ResumeFilter \<Rightarrow> ustring \<Rightarrow> resume_file list \<Rightarrow> error + candidate list" where
  "process_resumes rf now files =
     (case process_loop rf now files [] of
        Inl e \<Rightarrow> Inl e
      | Inr results \<Rightarrow> Inr (sort_key rank_key results))"

text \<open>\<^verbatim>\<open>gradioApp.py\<close>: the same loop over paths, with its own \<^verbatim>\<open>extract_text\<close> and the base
  name of the path as the file name. The text is always a string, so the second test of
  the loop never holds.\<close>

definition basename :: "ustring \<Rightarrow> ustring" where
  "basename p = rev (takeWhile (\<lambda>c. c \<noteq> ch CHR ''/'') (rev p))"

fun process_loop_gradio ::
  "ResumeFilter \<Rightarrow> ustring \<Rightarrow> resume_file list \<Rightarrow> candidate list \<Rightarrow> error + candidate list" where
  "process_loop_gradio rf now [] results = Inr results"
| "process_loop_gradio rf now (f # fs) results =
     (if is_pdf (path f) \<or> is_doc (path f) then
        (let text = extract_text_gradio f in
         if strip text = [] then process_loop_gradio rf now fs results
         else
           (case analyze_resume rf now text of
              Inl e \<Rightarrow> Inl e
            | Inr a \<Rightarrow>
                if missing_mandatory a = []
                then process_loop_gradio rf now fs (results @ [make_candidate rf (basename (path f)) a])
                else process_loop_gradio rf now fs results))
      else process_loop_gradio rf now fs results)"

definition process_resumes_gradio ::
  "ResumeFilter \<Rightarrow> ustring \<Rightarrow> resume_file list \<Rightarrow> error + candidate list" where
  "process_resumes_gradio rf now files =
     (case process_loop_gradio rf now files [] of
        Inl e \<Rightarrow> Inl e
      | Inr results \<Rightarrow> Inr (sort_key rank_key results))"


section \<open>Properties of the analysis\<close>

text \<open>The number of matches of a keyword's pattern in a text: the value both keyword loops
  store for it.\<close>

definition occurrences :: "ustring \<Rightarrow> ustring \<Rightarrow> nat" where
  "occurrences kw text = length (finditer False (kw_pattern kw) text)"

lemma match_loop_count:
  "fst (match_loop text kw ms (n, s)) = n + length ms"
  by (induction ms arbitrary: n s) auto

lemma get_count_update:
  "get_count (AList.update k v al) k' = (if k' = k then v else get_count al k')"
  by (simp add: get_count_def update_conv')

lemma mandatory_loop_counts:
  "mandatory_loop text kws (missing, counts, sections) = (missing', counts', sections') \<Longrightarrow>
   get_count counts' kw = (if kw \<in> set kws then occurrences kw text else get_count counts kw)"
proof (induction kws arbitrary: missing counts sections)
  case Nil
  then show ?case by simp
next
  case (Cons k kws)
  obtain n s where ml: "match_loop text k (finditer False (kw_pattern k) text) (0, sections) = (n, s)"
    by (cases "match_loop text k (finditer False (kw_pattern k) text) (0, sections)")
  have n: "n = occurrences k text"
    using match_loop_count[of "text" k "finditer False (kw_pattern k) text" 0 sections] ml
    by (simp add: occurrences_def)
  from Cons.prems ml have
    "mandatory_loop text kws (if n = 0 then missing @ [k] else missing, AList.update k n counts, s)
       = (missing', counts', sections')"
    by simp
  from Cons.IH[OF this] show ?case
    by (simp add: get_count_update n)
qed

lemma mandatory_loop_missing:
  "mandatory_loop text kws (missing, counts, sections) = (missing', counts', sections') \<Longrightarrow>
   missing' = missing @ filter (\<lambda>kw. occurrences kw text = 0) kws"
proof (induction kws arbitrary: missing counts sections)
  case Nil
  then show ?case by simp
next
  case (Cons k kws)
  obtain n s where ml: "match_loop text k (finditer False (kw_pattern k) text) (0, sections) = (n, s)"
    by (cases "match_loop text k (finditer False (kw_pattern k) text) (0, sections)")
  have n: "n = occurrences k text"
    using match_loop_count[of "text" k "finditer False (kw_pattern k) text" 0 sections] ml
    by (simp add: occurrences_def)
  from Cons.prems ml have
    "mandatory_loop text kws (if n = 0 then missing @ [k] else missing, AList.update k n counts, s)
       = (missing', counts', sections')"
    by simp
  from Cons.IH[OF this] show ?case
    by (simp add: n)
qed

lemma optional_loop_counts:
  "get_count (optional_loop text kws counts) kw =
     (if kw \<in> set kws then occurrences kw text else get_count counts kw)"
  by (induction kws arbitrary: counts) (auto simp: get_count_update occurrences_def findall_def)

text \<open>The experience bonus as a number, where the division is defined.\<close>

definition bonus_of :: "real option \<Rightarrow> real \<Rightarrow> real \<Rightarrow> real" where
  "bonus_of xp min_exp base =
     (case xp of None \<Rightarrow> 0
      | Some e \<Rightarrow> if e < min_exp then 0 else min (e / min_exp) 1.2 * base * 0.2)"

lemma exp_bonus_Inr:
  "exp_bonus xp min_exp base = Inr b \<Longrightarrow> b = bonus_of xp min_exp (real base)"
  by (auto simp: exp_bonus_def bonus_of_def split: option.splits if_splits)

lemma exp_bonus_total:
  "min_exp \<noteq> 0 \<Longrightarrow> exp_bonus xp min_exp base = Inr (bonus_of xp min_exp (real base))"
  by (cases xp) (simp_all add: exp_bonus_def bonus_of_def not_less)

lemma final_counts:
  assumes "mandatory_loop text ms ([], [], []) = (missing, counts0, sections)"
    and "kw \<in> set ms \<union> set os"
  shows "get_count (optional_loop text os counts0) kw = occurrences kw text"
  using assms mandatory_loop_counts[OF assms(1), of kw]
  by (auto simp: optional_loop_counts)

lemma analyze_resume_Inr:
  assumes "analyze_resume rf now text = Inr a"
  shows "score a =
           real (\<Sum>kw\<leftarrow>mandatory rf. occurrences kw text * 3)
         + real (\<Sum>kw\<leftarrow>optional rf. occurrences kw text)
         + bonus_of (extract_experience now text) (min_experience rf)
             (real ((\<Sum>kw\<leftarrow>mandatory rf. occurrences kw text * 3) + (\<Sum>kw\<leftarrow>optional rf. occurrences kw text)))"
    and "experience a = extract_experience now text"
    and "missing_mandatory a = filter (\<lambda>kw. occurrences kw text = 0) (mandatory rf)"
proof -
  obtain missing counts0 sections where
    ml: "mandatory_loop text (mandatory rf) ([], [], []) = (missing, counts0, sections)"
    by (cases "mandatory_loop text (mandatory rf) ([], [], [])")
  let ?counts = "optional_loop text (optional rf) counts0"
  have "map (\<lambda>kw. get_count ?counts kw * 3) (mandatory rf) = map (\<lambda>kw. occurrences kw text * 3) (mandatory rf)"
    using final_counts[OF ml] by simp
  then have m: "(\<Sum>kw\<leftarrow>mandatory rf. get_count ?counts kw * 3) = (\<Sum>kw\<leftarrow>mandatory rf. occurrences kw text * 3)"
    by (simp only:)
  have "map (\<lambda>kw. get_count ?counts kw) (optional rf) = map (\<lambda>kw. occurrences kw text) (optional rf)"
    using final_counts[OF ml] by simp
  then have o: "(\<Sum>kw\<leftarrow>optional rf. get_count ?counts kw) = (\<Sum>kw\<leftarrow>optional rf. occurrences kw text)"
    by (simp only:)
  let ?ms = "\<Sum>kw\<leftarrow>mandatory rf. occurrences kw text * 3"
  let ?os = "\<Sum>kw\<leftarrow>optional rf. occurrences kw text"
  from assms obtain b where
    b: "exp_bonus (extract_experience now text) (min_experience rf) (?ms + ?os) = Inr b"
    and a: "a = \<lparr>missing_mandatory = missing, keyword_counts = ?counts, found_sections = sections,
                 experience = extract_experience now text, score = real ?ms + real ?os + b\<rparr>"
    by (auto simp: analyze_resume_def Let_def ml m o split: sum.splits)
  from exp_bonus_Inr[OF b] a show "score a =
           real ?ms + real ?os
         + bonus_of (extract_experience now text) (min_experience rf) (real (?ms + ?os))"
    by simp
  from a show "experience a = extract_experience now text" by simp
  from a mandatory_loop_missing[OF ml] show "missing_mandatory a = filter (\<lambda>kw. occurrences kw text = 0) (mandatory rf)"
    by simp
qed

lemma analyze_resume_total:
  assumes "min_experience rf \<noteq> 0"
  shows "\<exists>a. analyze_resume rf now text = Inr a"
proof -
  obtain missing counts0 sections where
    ml: "mandatory_loop text (mandatory rf) ([], [], []) = (missing, counts0, sections)"
    by (cases "mandatory_loop text (mandatory rf) ([], [], [])")
  show ?thesis
    by (simp add: analyze_resume_def Let_def ml exp_bonus_total[OF assms])
qed


text \<open>
  C1. Whenever \<open>analyze_resume\<close> returns, the score is the mandatory score (three times
  the occurrences of each mandatory keyword, summed) plus the optional score (the
  occurrences of each optional keyword, summed) plus the bonus: 0 when no experience is
  found or it is below the minimum, and otherwise
  \<open>min (experience / min_experience) 1.2\<close> times the sum of the two scores times 0.2.
  It returns whenever the minimum is not 0. Scores are real numbers here (no rounding).
  The witness is the instance of the claim: two occurrences of the mandatory keyword,
  one of the optional keyword, 6 years against a minimum of 5 give 8.68.
\<close>

theorem total_score_formula:
  "(\<forall>a. analyze_resume rf now text = Inr a \<longrightarrow>
      score a =
        real (\<Sum>kw\<leftarrow>mandatory rf. occurrences kw text * 3)
      + real (\<Sum>kw\<leftarrow>optional rf. occurrences kw text)
      + (case extract_experience now text of
           None \<Rightarrow> 0
         | Some e \<Rightarrow>
             if e < min_experience rf then 0
             else min (e / min_experience rf) 1.2
                  * (real (\<Sum>kw\<leftarrow>mandatory rf. occurrences kw text * 3)
                     + real (\<Sum>kw\<leftarrow>optional rf. occurrences kw text))
                  * 0.2))
   \<and> (min_experience rf \<noteq> 0 \<longrightarrow> (\<exists>a. analyze_resume rf now text = Inr a))"
proof (intro conjI allI impI)
  fix a
  assume "analyze_resume rf now text = Inr a"
  from analyze_resume_Inr(1)[OF this] show "score a =
        real (\<Sum>kw\<leftarrow>mandatory rf. occurrences kw text * 3)
      + real (\<Sum>kw\<leftarrow>optional rf. occurrences kw text)
      + (case extract_experience now text of
           None \<Rightarrow> 0
         | Some e \<Rightarrow>
             if e < min_experience rf then 0
             else min (e / min_experience rf) 1.2
                  * (real (\<Sum>kw\<leftarrow>mandatory rf. occurrences kw text * 3)
                     + real (\<Sum>kw\<leftarrow>optional rf. occurrences kw text))
                  * 0.2)"
    by (simp add: bonus_of_def)
next
  assume "min_experience rf \<noteq> 0"
  then show "\<exists>a. analyze_resume rf now text = Inr a"
    by (rule analyze_resume_total)
qed

theorem total_score_formula_witness:
  "\<exists>a. analyze_resume (init [] [ustr ''Python''] [ustr ''AWS''] 5) (ustr ''Nov 2026'')
          (ustr ''python python aws 6 years experience'') = Inr a
       \<and> occurrences (ustr ''python'') (ustr ''python python aws 6 years experience'') = 2
       \<and> occurrences (ustr ''aws'') (ustr ''python python aws 6 years experience'') = 1
       \<and> extract_experience (ustr ''Nov 2026'') (ustr ''python python aws 6 years experience'') = Some 6
       \<and> score a = 8.68"
proof -
  let ?rf = "init [] [ustr ''Python''] [ustr ''AWS''] 5"
  let ?t = "ustr ''python python aws 6 years experience''"
  have m: "mandatory ?rf = [ustr ''python'']" and o: "optional ?rf = [ustr ''aws'']"
    and me: "min_experience ?rf = 5"
    by code_simp+
  have p: "occurrences (ustr ''python'') ?t = 2" by code_simp
  have w: "occurrences (ustr ''aws'') ?t = 1" by code_simp
  have x: "extract_experience (ustr ''Nov 2026'') ?t = Some 6" by code_simp
  from total_score_formula[of ?rf "ustr ''Nov 2026''" ?t] me
  obtain a where a: "analyze_resume ?rf (ustr ''Nov 2026'') ?t = Inr a" by auto
  with total_score_formula[of ?rf "ustr ''Nov 2026''" ?t] have "score a = 8.68"
    by (simp add: m o me p w x)
  with a p w x show ?thesis by blast
qed

lemma float_of_nonneg: "float_of s = Some v \<Longrightarrow> 0 \<le> v"
  by (auto simp: float_of_def Let_def split: list.splits if_splits)

lemma first_float_nonneg: "first_float ms = Some v \<Longrightarrow> 0 \<le> v"
  by (induction ms) (auto split: option.splits dest: float_of_nonneg)

lemma explicit_experience_nonneg: "explicit_experience ps t = Some v \<Longrightarrow> 0 \<le> v"
  by (induction ps) (auto split: option.splits dest: first_float_nonneg)

lemma date_loop_nonneg:
  "date_loop now drs (t, n) = (t', n') \<Longrightarrow> 0 \<le> t \<Longrightarrow> 0 \<le> t'"
  by (induction drs arbitrary: t n) (auto split: option.splits if_splits)

lemma extract_experience_nonneg: "extract_experience now t = Some e \<Longrightarrow> 0 \<le> e"
  by (auto simp: extract_experience_def split: option.splits prod.splits if_splits
           dest: explicit_experience_nonneg date_loop_nonneg)

text \<open>
  C10. With a minimum experience of 0, every text from which an experience is extracted
  makes \<open>analyze_resume\<close> raise \<^verbatim>\<open>ZeroDivisionError\<close> (the extracted experience is never
  negative, so the comparison with the minimum never guards the division); with a positive
  minimum it returns for every text.
\<close>

theorem zero_minimum_divides_by_zero:
  "(min_experience rf = 0 \<and> extract_experience now text = Some e \<longrightarrow>
      analyze_resume rf now text = Inl ZeroDivisionError)
   \<and> (0 < min_experience rf \<longrightarrow> (\<exists>a. analyze_resume rf now text = Inr a))"
proof (intro conjI impI)
  assume h: "min_experience rf = 0 \<and> extract_experience now text = Some e"
  then have "0 \<le> e" by (auto dest: extract_experience_nonneg)
  with h have "\<And>base. exp_bonus (extract_experience now text) (min_experience rf) base = Inl ZeroDivisionError"
    by (simp add: exp_bonus_def)
  then show "analyze_resume rf now text = Inl ZeroDivisionError"
    by (simp add: analyze_resume_def Let_def split: prod.splits)
next
  assume "0 < min_experience rf"
  then have "min_experience rf \<noteq> 0" by simp
  then show "\<exists>a. analyze_resume rf now text = Inr a"
    by (rule analyze_resume_total)
qed

theorem zero_minimum_divides_by_zero_witness:
  "extract_experience (ustr ''Nov 2026'') (ustr ''python, 3 years experience'') = Some 3
   \<and> analyze_resume (init [] [ustr ''python''] [] 0) (ustr ''Nov 2026'')
        (ustr ''python, 3 years experience'') = Inl ZeroDivisionError
   \<and> (\<exists>a. analyze_resume (init [] [ustr ''python''] [] 1) (ustr ''Nov 2026'')
        (ustr ''python, 3 years experience'') = Inr a)"
proof -
  have x: "extract_experience (ustr ''Nov 2026'') (ustr ''python, 3 years experience'') = Some 3"
    by code_simp
  have m0: "min_experience (init [] [ustr ''python''] [] 0) = 0"
    and m1: "0 < min_experience (init [] [ustr ''python''] [] 1)"
    by (simp_all add: init_def)
  from zero_minimum_divides_by_zero[of "init [] [ustr ''python''] [] 0" "ustr ''Nov 2026''"
      "ustr ''python, 3 years experience''" 3] x m0
  have a: "analyze_resume (init [] [ustr ''python''] [] 0) (ustr ''Nov 2026'')
        (ustr ''python, 3 years experience'') = Inl ZeroDivisionError"
    by blast
  from zero_minimum_divides_by_zero[of "init [] [ustr ''python''] [] 1" "ustr ''Nov 2026''"
      "ustr ''python, 3 years experience''"] m1
  have b: "\<exists>a. analyze_resume (init [] [ustr ''python''] [] 1) (ustr ''Nov 2026'')
        (ustr ''python, 3 years experience'') = Inr a"
    by blast
  from x a b show ?thesis by blast
qed



section \<open>Properties of the batch\<close>

text \<open>A PDF file with a text layer, for the examples.\<close>

definition pdf_file :: "string \<Rightarrow> string list \<Rightarrow> resume_file" where
  "pdf_file name pages =
     \<lparr>path = ustr name, pdf_pages = Returns (map (\<lambda>p. Some (ustr p)) pages),
      ocr_pages = Returns [], docx = Raises []\<rparr>"

lemma process_loop_sound:
  assumes "process_loop rf now files acc = Inr res" and "c \<in> set res"
  shows "c \<in> set acc \<or>
         (\<exists>f a. f \<in> set files \<and> analyze_resume rf now (extract_text f) = Inr a \<and>
                missing_mandatory a = [] \<and> c = make_candidate rf (path f) a)"
  using assms
proof (induction files arbitrary: acc)
  case Nil
  then show ?case by simp
next
  case (Cons f fs)
  let ?P = "\<lambda>files. \<exists>f a. f \<in> set files \<and> analyze_resume rf now (extract_text f) = Inr a \<and>
                missing_mandatory a = [] \<and> c = make_candidate rf (path f) a"
  have mono: "?P fs \<Longrightarrow> ?P (f # fs)" by auto
  show ?case
  proof (cases "(is_pdf (path f) \<or> is_doc (path f)) \<and> strip (extract_text f) \<noteq> []")
    case False
    then have "process_loop rf now (f # fs) acc = process_loop rf now fs acc"
      by (auto simp: Let_def)
    with Cons.prems have "process_loop rf now fs acc = Inr res" by simp
    from Cons.IH[OF this Cons.prems(2)] mono show ?thesis by blast
  next
    case True
    show ?thesis
    proof (cases "analyze_resume rf now (extract_text f)")
      case (Inl e)
      with True have "process_loop rf now (f # fs) acc = Inl e"
        by (auto simp: Let_def)
      with Cons.prems show ?thesis by simp
    next
      case (Inr a)
      show ?thesis
      proof (cases "missing_mandatory a = []")
        case miss: True
        with True Inr have "process_loop rf now (f # fs) acc
            = process_loop rf now fs (acc @ [make_candidate rf (path f) a])"
          by (auto simp: Let_def)
        with Cons.prems have "process_loop rf now fs (acc @ [make_candidate rf (path f) a]) = Inr res"
          by simp
        from Cons.IH[OF this Cons.prems(2)]
        have "c \<in> set acc \<or> c = make_candidate rf (path f) a \<or> ?P fs" by auto
        with Inr miss mono show ?thesis by auto
      next
        case miss: False
        with True Inr have "process_loop rf now (f # fs) acc = process_loop rf now fs acc"
          by (auto simp: Let_def)
        with Cons.prems have "process_loop rf now fs acc = Inr res" by simp
        from Cons.IH[OF this Cons.prems(2)] mono show ?thesis by blast
      qed
    qed
  qed
qed

lemma make_candidate_fields:
  "filename (make_candidate rf name a) = name"
  "missing_mandatory (make_candidate rf name a) = missing_mandatory a"
  "score (make_candidate rf name a) = score a"
  "experience (make_candidate rf name a) = experience a"
  "experience_met (make_candidate rf name a) = exp_met rf a"
  by (simp_all add: make_candidate_def)

text \<open>Every ranked candidate comes from a file in whose text the pattern of every
  mandatory keyword has a match.\<close>

lemma ranked_have_occurrences:
  assumes "process_resumes rf now files = Inr ranked" and "c \<in> set ranked"
  shows "missing_mandatory c = [] \<and>
         (\<exists>f. f \<in> set files \<and> filename c = path f \<and>
              list_all (\<lambda>kw. 0 < occurrences kw (extract_text f)) (mandatory rf))"
proof -
  from assms(1) obtain pool where pool: "process_loop rf now files [] = Inr pool"
    and ranked: "ranked = sort_key rank_key pool"
    by (auto simp: process_resumes_def split: sum.splits)
  from assms(2) ranked have "c \<in> set pool" by simp
  from process_loop_sound[OF pool this] obtain f a where f: "f \<in> set files"
    and a: "analyze_resume rf now (extract_text f) = Inr a" "missing_mandatory a = []"
    and c: "c = make_candidate rf (path f) a"
    by auto
  from analyze_resume_Inr(3)[OF a(1)] a(2)
  have "filter (\<lambda>kw. occurrences kw (extract_text f) = 0) (mandatory rf) = []" by simp
  then have "list_all (\<lambda>kw. 0 < occurrences kw (extract_text f)) (mandatory rf)"
    by (simp add: filter_empty_conv list_all_iff)
  with f a c show ?thesis by (auto simp: make_candidate_fields)
qed

lemma rank_key_le:
  "rank_key x \<le> rank_key y \<longleftrightarrow>
     score y < score x \<or> (score x = score y \<and> (experience_met x \<or> \<not> experience_met y))"
  by (auto simp: rank_key_def less_eq_prod_def)

lemma rank_key_eq:
  "rank_key x = rank_key y \<longleftrightarrow> score x = score y \<and> experience_met x = experience_met y"
  by (auto simp: rank_key_def)

text \<open>
  C8. The ranked output is the candidate pool (the candidates in the order in which the
  loop met them) sorted by score, highest first, and among equal scores the candidates
  that meet the experience requirement first; it is a permutation of the pool, and the
  candidates that agree in score and in the flag keep the order they have in the pool.
\<close>

theorem ranking_is_stable_sort:
  assumes "process_loop rf now files [] = Inr pool"
  shows "\<exists>ranked. process_resumes rf now files = Inr ranked
           \<and> mset ranked = mset pool
           \<and> sorted_wrt (\<lambda>x y. score y < score x
                  \<or> (score x = score y \<and> (experience_met x \<or> \<not> experience_met y))) ranked
           \<and> (\<forall>s m. filter (\<lambda>x. score x = s \<and> experience_met x = m) ranked
                    = filter (\<lambda>x. score x = s \<and> experience_met x = m) pool)"
proof -
  let ?ranked = "sort_key rank_key pool"
  have 1: "process_resumes rf now files = Inr ?ranked"
    by (simp add: process_resumes_def assms)
  have 2: "mset ?ranked = mset pool" by simp
  have "sorted (map rank_key ?ranked)" by simp
  then have 3: "sorted_wrt (\<lambda>x y. score y < score x
                  \<or> (score x = score y \<and> (experience_met x \<or> \<not> experience_met y))) ?ranked"
    by (simp add: sorted_map rank_key_le)
  have 4: "filter (\<lambda>x. score x = s \<and> experience_met x = m) ?ranked
         = filter (\<lambda>x. score x = s \<and> experience_met x = m) pool" for s m
  proof -
    have "(\<lambda>x. score x = s \<and> experience_met x = m) = (\<lambda>x. rank_key x = (- s, - (if m then 1 else 0)))"
      by (auto simp: rank_key_def split: if_splits)
    then show ?thesis by (simp add: sort_key_stable)
  qed
  from 1 2 3 4 show ?thesis by blast
qed

theorem ranking_is_stable_sort_witness:
  "\<exists>ranked. process_resumes (init [] [ustr ''python''] [] 5) (ustr ''Nov 2026'')
          [pdf_file ''a.pdf'' [''python''], pdf_file ''b.pdf'' [''python python''],
           pdf_file ''c.pdf'' [''python'']] = Inr ranked
      \<and> map filename ranked = [ustr ''b.pdf'', ustr ''a.pdf'', ustr ''c.pdf'']
      \<and> map filename (filter (\<lambda>x. score x = 3 \<and> experience_met x = False) ranked)
          = [ustr ''a.pdf'', ustr ''c.pdf'']"
proof -
  let ?rf = "init [] [ustr ''python''] [] 5"
  let ?files = "[pdf_file ''a.pdf'' [''python''], pdf_file ''b.pdf'' [''python python''],
           pdf_file ''c.pdf'' [''python'']]"
  have "map_sum id (map (\<lambda>x. (filename x, score x, experience_met x)))
          (process_loop ?rf (ustr ''Nov 2026'') ?files [])
        = Inr [(ustr ''a.pdf'', 3, False), (ustr ''b.pdf'', 6, False), (ustr ''c.pdf'', 3, False)]"
    by code_simp
  then obtain pool where p: "process_loop ?rf (ustr ''Nov 2026'') ?files [] = Inr pool"
    and f: "map (\<lambda>x. (filename x, score x, experience_met x)) pool
        = [(ustr ''a.pdf'', 3, False), (ustr ''b.pdf'', 6, False), (ustr ''c.pdf'', 3, False)]"
    by (cases "process_loop ?rf (ustr ''Nov 2026'') ?files []") auto
  from f have pf: "map filename (filter (\<lambda>x. score x = 3 \<and> experience_met x = False) pool)
          = [ustr ''a.pdf'', ustr ''c.pdf'']"
    by (auto simp: map_eq_Cons_conv)
  from ranking_is_stable_sort[OF p] obtain ranked where
    r: "process_resumes ?rf (ustr ''Nov 2026'') ?files = Inr ranked"
    and st: "filter (\<lambda>x. score x = 3 \<and> experience_met x = False) ranked
           = filter (\<lambda>x. score x = 3 \<and> experience_met x = False) pool"
    by blast
  have "map_sum id (map filename) (process_resumes ?rf (ustr ''Nov 2026'') ?files)
      = Inr [ustr ''b.pdf'', ustr ''a.pdf'', ustr ''c.pdf'']"
    by code_simp
  with r have o: "map filename ranked = [ustr ''b.pdf'', ustr ''a.pdf'', ustr ''c.pdf'']"
    by simp
  from r o st pf show ?thesis by auto
qed

text \<open>
  C7. In \<^verbatim>\<open>gradioApp.py\<close> a resume whose extraction raises is not excluded: the error
  message, which holds the path, is analysed as the text of the resume. Here the
  mandatory keyword is part of the file name and the unreadable file is ranked with
  score 3; \<^verbatim>\<open>resume_filter.py\<close> leaves the same file out.
\<close>

theorem gradio_extraction_error_is_ranked:
  "map_sum id (map (\<lambda>c. (filename c, score c)))
     (process_resumes_gradio (init [] [ustr ''Python''] [] 2) (ustr ''Nov 2026'')
        [\<lparr>path = ustr ''uploads/python.pdf'', pdf_pages = Raises (ustr ''No /Root object!''),
          ocr_pages = Returns [], docx = Raises []\<rparr>])
     = Inr [(ustr ''python.pdf'', 3)]
   \<and> process_resumes (init [] [ustr ''Python''] [] 2) (ustr ''Nov 2026'')
        [\<lparr>path = ustr ''uploads/python.pdf'', pdf_pages = Raises (ustr ''No /Root object!''),
          ocr_pages = Returns [], docx = Raises []\<rparr>]
     = Inr []"
  by code_simp



section \<open>Properties of the experience extraction\<close>

lemma explicit_experience_no_match:
  "list_all (\<lambda>p. finditer False p t = []) ps \<Longrightarrow> explicit_experience ps t = None"
  by (induction ps) auto

lemma date_loop_sum:
  "date_loop now drs (tot, valid) =
     (tot + sum_list (filter (\<lambda>d. 0 < d) (List.map_filter (range_duration now) drs)),
      valid + length (filter (\<lambda>d. 0 < d) (List.map_filter (range_duration now) drs)))"
  by (induction drs arbitrary: tot valid) (auto simp: List.map_filter_simps split: option.splits)

text \<open>
  C5. When none of the five explicit patterns has a match in the text, the result is the
  sum of the positive durations, each (end - start) in days divided by 365.25, of the
  date ranges that \<^verbatim>\<open>findall\<close> returns and that parse; it is absent when there is no such
  range. The witness has two ranges of 699 and 547 days: the result is their sum, not
  their average.
\<close>

theorem date_ranges_are_summed:
  assumes "list_all (\<lambda>p. finditer False p text = []) patterns"
  shows "extract_experience now text =
           (let durations = filter (\<lambda>d. 0 < d)
                  (List.map_filter (range_duration now) (findall True date_pattern text))
            in if durations = [] then None else Some (sum_list durations))"
  by (simp add: extract_experience_def explicit_experience_no_match[OF assms] date_loop_sum Let_def)

theorem date_ranges_are_summed_witness:
  "list_all (\<lambda>p. finditer False p (ustr ''jan 2018 - dec 2019, feb 2020 - aug 2021'') = []) patterns
   \<and> List.map_filter (range_duration (ustr ''Nov 2026''))
        (findall True date_pattern (ustr ''jan 2018 - dec 2019, feb 2020 - aug 2021''))
      = [699 / 365.25, 547 / 365.25]
   \<and> extract_experience (ustr ''Nov 2026'') (ustr ''jan 2018 - dec 2019, feb 2020 - aug 2021'')
      = Some (1246 / 365.25)"
proof -
  let ?t = "ustr ''jan 2018 - dec 2019, feb 2020 - aug 2021''"
  have h: "list_all (\<lambda>p. finditer False p ?t = []) patterns"
    by code_simp
  have d: "List.map_filter (range_duration (ustr ''Nov 2026'')) (findall True date_pattern ?t)
      = [699 / 365.25, 547 / 365.25]"
    by code_simp
  from date_ranges_are_summed[OF h, of "ustr ''Nov 2026''"] d
  have "extract_experience (ustr ''Nov 2026'') ?t = Some (1246 / 365.25)"
    by (simp add: Let_def)
  with h d show ?thesis by blast
qed

text \<open>
  C2. The date pattern is an alternation of a complete month range and the single word
  \<^verbatim>\<open>present\<close>, so in \<^verbatim>\<open>mar 2020 - present\<close> only the word matches: the split of the match
  gives one part and the iteration is skipped. The text of the claim yields the first
  range alone, 699 days, although the loop body would give 2436 days for the second range
  (with the clock at November 2026) if the pattern had matched it.
\<close>

theorem present_range_is_not_parsed:
  "findall True date_pattern (ustr ''jan 2018 - dec 2019 mar 2020 - present'')
     = [ustr ''jan 2018 - dec 2019'', ustr ''present'']
   \<and> re_split False dash_sep (ustr ''present'') = [ustr ''present'']
   \<and> range_duration (ustr ''Nov 2026'') (ustr ''present'') = None
   \<and> range_duration (ustr ''Nov 2026'') (ustr ''mar 2020 - present'') = Some (2436 / 365.25)
   \<and> extract_experience (ustr ''Nov 2026'') (ustr ''jan 2018 - dec 2019 mar 2020 - present'')
     = Some (699 / 365.25)"
  by code_simp



section \<open>What a match consumes\<close>

text \<open>
  The words a pattern can consume, the \<^verbatim>\<open>\b\<close> tests left aside: an upper bound of what a
  run of the matcher consumes, used to reason about every match in every text.
\<close>

inductive_set star :: "ustring set \<Rightarrow> ustring set" for A where
  star_Nil: "[] \<in> star A"
| star_step: "u \<in> A \<Longrightarrow> v \<in> star A \<Longrightarrow> u @ v \<in> star A"

fun lang :: "bool \<Rightarrow> rx \<Rightarrow> ustring set" where
  "lang ic Empty = {[]}"
| "lang ic (Lit d) = {[c] | c. in_item ic c (CChar d)}"
| "lang ic (In items) = {[c] | c. list_ex (in_item ic c) items}"
| "lang ic Dot = {[c] | c. c \<noteq> 10}"
| "lang ic WordB = {[]}"
| "lang ic (Seq a b) = {u @ v | u v. u \<in> lang ic a \<and> v \<in> lang ic b}"
| "lang ic (Alt a b) = lang ic a \<union> lang ic b"
| "lang ic (Star a) = star (lang ic a)"
| "lang ic (Group n a) = lang ic a"

lemma step_lang:
  assumes "st' \<in> set (step p st)"
  shows "\<exists>c. p c \<and> rest st = [c] @ rest st' \<and> seen st' = rev [c] @ seen st"
  using step_sound[OF assms] by auto

lemma run_lang:
  "st' \<in> set (run ic r st) \<Longrightarrow>
     \<exists>w. w \<in> lang ic r \<and> rest st = w @ rest st' \<and> seen st' = rev w @ seen st"
proof (induction ic r st arbitrary: st' rule: run.induct)
  case (1 ic st)
  then show ?case by simp
next
  case (2 ic d st)
  then have "st' \<in> set (step (\<lambda>c. if ic then lower_chr c = lower_chr d else c = d) st)" by simp
  from step_lang[OF this] obtain c where "(if ic then lower_chr c = lower_chr d else c = d)"
    "rest st = [c] @ rest st'" "seen st' = rev [c] @ seen st" by blast
  then show ?case by (intro exI[of _ "[c]"]) simp
next
  case (3 ic items st)
  then have "st' \<in> set (step (\<lambda>c. list_ex (in_item ic c) items) st)" by simp
  from step_lang[OF this] obtain c where "list_ex (in_item ic c) items"
    "rest st = [c] @ rest st'" "seen st' = rev [c] @ seen st" by blast
  then show ?case by (intro exI[of _ "[c]"]) simp
next
  case (4 ic st)
  then have "st' \<in> set (step (\<lambda>c. c \<noteq> 10) st)" by simp
  from step_lang[OF this] obtain c where "c \<noteq> 10"
    "rest st = [c] @ rest st'" "seen st' = rev [c] @ seen st" by blast
  then show ?case by (intro exI[of _ "[c]"]) simp
next
  case (5 ic st)
  then show ?case by (simp split: if_splits)
next
  case (6 ic a b st)
  from "6.prems" obtain s1 where s1: "s1 \<in> set (run ic a st)" and s2: "st' \<in> set (run ic b s1)"
    by auto
  from "6.IH"(1)[OF s1] obtain u where u: "u \<in> lang ic a" "rest st = u @ rest s1" "seen s1 = rev u @ seen st"
    by blast
  from "6.IH"(2)[OF s1 s2] obtain v where v: "v \<in> lang ic b" "rest s1 = v @ rest st'" "seen st' = rev v @ seen s1"
    by blast
  show ?case using u v by (intro exI[of _ "u @ v"]) auto
next
  case (7 ic a b st)
  from "7.prems" have "st' \<in> set (run ic a st) \<or> st' \<in> set (run ic b st)" by simp
  then show ?case
  proof
    assume "st' \<in> set (run ic a st)"
    from "7.IH"(1)[OF this] show ?thesis by auto
  next
    assume "st' \<in> set (run ic b st)"
    from "7.IH"(2)[OF this] show ?thesis by auto
  qed
next
  case (8 ic a st)
  from "8.prems" consider (stop) "st' = st"
    | (iter) s1 where "s1 \<in> set (run ic a st)" "length (rest s1) < length (rest st)"
        "st' \<in> set (run ic (Star a) s1)"
    using run_Star_iff[of st' ic a st] by blast
  then show ?case
  proof cases
    case stop
    then show ?thesis by (intro exI[of _ "[]"]) (simp add: star_Nil)
  next
    case iter
    from "8.IH"(1)[OF iter(1)] obtain u where u: "u \<in> lang ic a" "rest st = u @ rest s1" "seen s1 = rev u @ seen st"
      by blast
    from "8.IH"(2)[OF iter(1) iter(2) iter(3)] obtain v where v: "v \<in> lang ic (Star a)" "rest s1 = v @ rest st'" "seen st' = rev v @ seen s1"
      by blast
    from u(1) v(1) have "u @ v \<in> lang ic (Star a)" by (simp add: star_step)
    then show ?thesis using u v by (intro exI[of _ "u @ v"]) simp
  qed
next
  case (9 ic n a st)
  from "9.prems" obtain s1 where s1: "s1 \<in> set (run ic a st)" and eq: "st' = s1\<lparr>caps := (n, consumed st s1) # caps s1\<rparr>"
    by auto
  from "9.IH"[OF s1] obtain u where "u \<in> lang ic a" "rest st = u @ rest s1" "seen s1 = rev u @ seen st" by blast
  with eq show ?case by (intro exI[of _ u]) simp
qed

lemma run_consumed:
  assumes "st' \<in> set (run ic r st)"
  shows "consumed st st' \<in> lang ic r" and "rest st = consumed st st' @ rest st'"
    and "seen st' = rev (consumed st st') @ seen st"
proof -
  from run_lang[OF assms] obtain w where w: "w \<in> lang ic r" "rest st = w @ rest st'" "seen st' = rev w @ seen st"
    by blast
  then have "consumed st st' = w" by (simp add: consumed_def)
  with w show "consumed st st' \<in> lang ic r" "rest st = consumed st st' @ rest st'"
    "seen st' = rev (consumed st st') @ seen st" by simp_all
qed

text \<open>Every match the scanner reports is a piece of the text, consumed by a run of the
  pattern that started without captures.\<close>

lemma scan_sound:
  "m \<in> set (scan ic r adv st) \<Longrightarrow>
     \<exists>s s'. s' \<in> set (run ic r (s\<lparr>caps := []\<rparr>)) \<and> m = mk_match s s'
          \<and> rev (seen s) @ rest s = rev (seen st) @ rest st"
proof (induction ic r adv st rule: scan.induct)
  case (1 ic r adv st)
  show ?case
  proof (cases "filter (admissible adv st) (run ic r (st\<lparr>caps := []\<rparr>))")
    case Nil
    show ?thesis
    proof (cases "rest st")
      case Nil': Nil
      with Nil "1.prems" show ?thesis by (simp add: scan.simps)
    next
      case (Cons c cs)
      with Nil "1.prems" have "m \<in> set (scan ic r False (st\<lparr>seen := c # seen st, rest := cs\<rparr>))"
        by (simp add: scan.simps)
      from "1.IH"(1)[OF Nil Cons this] Cons show ?thesis by simp
    qed
  next
    case (Cons st' sts)
    then have "st' \<in> set (filter (admissible adv st) (run ic r (st\<lparr>caps := []\<rparr>)))" by simp
    then have mem: "st' \<in> set (run ic r (st\<lparr>caps := []\<rparr>))" by simp
    from Cons "1.prems" consider "m = mk_match st st'"
      | "m \<in> set (scan ic r (length (rest st') = length (rest st)) st')"
      by (auto simp: scan.simps)
    then show ?thesis
    proof cases
      case 1
      with mem show ?thesis by blast
    next
      case 2
      from "1.IH"(2)[OF Cons 2] obtain s s' where
        "s' \<in> set (run ic r (s\<lparr>caps := []\<rparr>))" "m = mk_match s s'"
        "rev (seen s) @ rest s = rev (seen st') @ rest st'" by blast
      moreover from run_consumed(2,3)[OF mem] have "rev (seen st') @ rest st' = rev (seen st) @ rest st"
        by simp
      ultimately show ?thesis by auto
    qed
  qed
qed

lemma finditer_sound:
  assumes "m \<in> set (finditer ic r t)"
  shows "\<exists>s s'. s' \<in> set (run ic r (s\<lparr>caps := []\<rparr>)) \<and> m = mk_match s s' \<and> rev (seen s) @ rest s = t"
  using scan_sound[OF assms[unfolded finditer_def]] by simp

lemma finditer_group0:
  assumes "m \<in> set (finditer ic r t)"
  shows "m_group0 m \<in> lang ic r" and "\<exists>pre post. t = pre @ m_group0 m @ post"
proof -
  from finditer_sound[OF assms] obtain s s' where
    r: "s' \<in> set (run ic r (s\<lparr>caps := []\<rparr>))" and m: "m = mk_match s s'" and t: "rev (seen s) @ rest s = t"
    by blast
  have c: "consumed (s\<lparr>caps := []\<rparr>) s' = m_group0 m"
    by (simp add: m mk_match_def consumed_def)
  from run_consumed(1)[OF r] c show "m_group0 m \<in> lang ic r" by simp
  from run_consumed(2)[OF r] c have "rest s = m_group0 m @ rest s'" by simp
  with t have "t = rev (seen s) @ m_group0 m @ rest s'" by simp
  then show "\<exists>pre post. t = pre @ m_group0 m @ post" by blast
qed

lemma lang_cat_Nil [simp]: "lang ic (cat []) = {[]}"
  by (simp add: cat_def)

lemma lang_cat_Cons [simp]:
  "lang ic (cat (r # rs)) = {u @ v | u v. u \<in> lang ic r \<and> v \<in> lang ic (cat rs)}"
  by (simp add: cat_def)

lemma lang_Seq_Lit:
  "w \<in> lang ic (Seq (Lit d) b) \<longleftrightarrow> (\<exists>c v. w = c # v \<and> in_item ic c (CChar d) \<and> v \<in> lang ic b)"
proof
  assume "w \<in> lang ic (Seq (Lit d) b)"
  then show "\<exists>c v. w = c # v \<and> in_item ic c (CChar d) \<and> v \<in> lang ic b"
    by (auto simp del: in_item.simps)
next
  assume "\<exists>c v. w = c # v \<and> in_item ic c (CChar d) \<and> v \<in> lang ic b"
  then obtain c v where "w = [c] @ v" "in_item ic c (CChar d)" "v \<in> lang ic b"
    by auto
  then show "w \<in> lang ic (Seq (Lit d) b)"
    unfolding lang.simps by blast
qed

lemma lang_lits: "w \<in> lang ic (lits s) \<longleftrightarrow> list_all2 (\<lambda>c d. in_item ic c (CChar d)) w s"
proof (induction s arbitrary: w)
  case Nil
  then show ?case by (simp add: lits_def)
next
  case (Cons d s)
  have "lits (d # s) = Seq (Lit d) (lits s)" by (simp add: lits_def)
  then have "w \<in> lang ic (lits (d # s)) \<longleftrightarrow>
      (\<exists>c v. w = c # v \<and> in_item ic c (CChar d) \<and> v \<in> lang ic (lits s))"
    by (simp only: lang_Seq_Lit)
  also have "\<dots> \<longleftrightarrow> (\<exists>c v. w = c # v \<and> in_item ic c (CChar d) \<and>
      list_all2 (\<lambda>c d. in_item ic c (CChar d)) v s)"
    by (simp only: Cons.IH)
  also have "\<dots> \<longleftrightarrow> list_all2 (\<lambda>c d. in_item ic c (CChar d)) w (d # s)"
    by (simp only: list_all2_Cons2)
  finally show ?case .
qed

lemma rep4: "rep 4 a = Seq a (Seq a (Seq a (Seq a Empty)))"
  by (simp add: rep_def numeral_eq_Suc)

lemma star_list_all:
  assumes "w \<in> star A" and "\<And>u. u \<in> A \<Longrightarrow> list_all P u"
  shows "list_all P w"
  using assms(1) by (induction rule: star.induct) (simp_all add: assms(2))

text \<open>A match of the date pattern ends with a digit (a month range) or holds no dash
  (the word \<^verbatim>\<open>present\<close>).\<close>

definition ends_digit :: "ustring \<Rightarrow> bool" where
  "ends_digit w = (w \<noteq> [] \<and> is_digit (last w))"

lemma ends_digit_append: "ends_digit v \<Longrightarrow> ends_digit (u @ v)"
  by (simp add: ends_digit_def)

lemma ends_digit_cat:
  assumes "\<And>v. v \<in> lang ic r \<Longrightarrow> ends_digit v"
  shows "w \<in> lang ic (cat (rs @ [r])) \<Longrightarrow> ends_digit w"
proof (induction rs arbitrary: w)
  case Nil
  then show ?case using assms by auto
next
  case (Cons x rs)
  then obtain u v where "w = u @ v" "v \<in> lang ic (cat (rs @ [r]))" by auto
  with Cons.IH show ?case by (simp add: ends_digit_append)
qed

lemma ends_digit_rep4: "v \<in> lang ic (rep 4 digit) \<Longrightarrow> ends_digit v"
  by (auto simp: rep4 digit_def ends_digit_def)


lemma date_range_ends_digit:
  assumes "w \<in> lang True (cat [month_rx, Star (In [CRange (ch CHR ''a'') (ch CHR ''z'')]), Star space,
               rep 4 digit, Star space, dash, Star space,
               month_rx, Star (In [CRange (ch CHR ''a'') (ch CHR ''z'')]), Star space, rep 4 digit])"
  shows "ends_digit w"
proof -
  have "[month_rx, Star (In [CRange (ch CHR ''a'') (ch CHR ''z'')]), Star space,
               rep 4 digit, Star space, dash, Star space,
               month_rx, Star (In [CRange (ch CHR ''a'') (ch CHR ''z'')]), Star space, rep 4 digit]
      = [month_rx, Star (In [CRange (ch CHR ''a'') (ch CHR ''z'')]), Star space,
               rep 4 digit, Star space, dash, Star space,
               month_rx, Star (In [CRange (ch CHR ''a'') (ch CHR ''z'')]), Star space] @ [rep 4 digit]"
    by simp
  with assms show ?thesis
    by (metis ends_digit_cat ends_digit_rep4)
qed

definition is_dash :: "uchar \<Rightarrow> bool" where
  "is_dash c = (c = 45 \<or> c = 8211 \<or> c = 8212)"

lemma same_case_no_dash:
  assumes "list_all2 (\<lambda>c d. in_item True c (CChar d)) w s"
    and "list_all (\<lambda>d. 97 \<le> d \<and> d \<le> 122) s"
  shows "list_all (\<lambda>c. \<not> is_dash c) w"
  using assms
  by (induction rule: list_all2_induct) (auto simp: is_dash_def lower_chr_def split: if_splits)

lemma present_no_dash:
  assumes "w \<in> lang True (cat [WordB, lit ''present'', WordB])"
  shows "list_all (\<lambda>c. \<not> is_dash c) w"
proof -
  from assms have "list_all2 (\<lambda>c d. in_item True c (CChar d)) w (ustr ''present'')"
    by (simp add: lit_def lang_lits del: in_item.simps)
  moreover have "list_all (\<lambda>d. 97 \<le> d \<and> d \<le> 122) (ustr ''present'')"
    by (simp add: ustr_def)
  ultimately show ?thesis by (rule same_case_no_dash)
qed


lemma dash_sep_lang:
  assumes "w \<in> lang False dash_sep"
  shows "list_ex is_dash w"
proof -
  from assms obtain u c v where "w = u @ [c] @ v" "list_ex (in_item False c) [CChar (ch CHR ''-''), CChar 8211, CChar 8212]"
    by (auto simp: dash_sep_def dash_def)
  then show ?thesis by (auto simp: is_dash_def ch_def)
qed

lemma date_pattern_lang:
  assumes "w \<in> lang True date_pattern"
  shows "ends_digit w \<or> list_all (\<lambda>c. \<not> is_dash c) w"
  using assms date_range_ends_digit present_no_dash
  unfolding date_pattern_def lang.simps by blast

section \<open>The clock\<close>

text \<open>The pieces of a split: without a match the text itself; the last piece is always
  an end of the text.\<close>

lemma split_at_not_Nil: "split_at t k0 ms \<noteq> []"
  by (cases ms) auto

lemma split_at_last: "\<exists>k. last (split_at t k0 ms) = drop k t"
  by (induction ms arbitrary: k0) (auto simp: split_at_not_Nil)

lemma finditer_no_dash:
  assumes "list_all (\<lambda>c. \<not> is_dash c) t"
  shows "finditer False dash_sep t = []"
proof (rule ccontr)
  assume "finditer False dash_sep t \<noteq> []"
  then obtain m where m: "m \<in> set (finditer False dash_sep t)"
    by (cases "finditer False dash_sep t") auto
  from finditer_group0[OF m] obtain pre post where
    "m_group0 m \<in> lang False dash_sep" "t = pre @ m_group0 m @ post" by blast
  with dash_sep_lang[of "m_group0 m"] assms show False
    by (auto simp: list_all_iff list_ex_iff)
qed

lemma strip_keeps_last:
  assumes "s \<noteq> []" and "\<not> is_space (last s)"
  shows "strip s \<noteq> [] \<and> last (strip s) = last s"
proof -
  let ?d = "dropWhile is_space s"
  from assms have mem: "last s \<in> set s" by simp
  with assms(2) have d: "?d \<noteq> []" by (auto simp: dropWhile_eq_Nil_conv)
  have "s = takeWhile is_space s @ ?d" by simp
  with d have l: "last ?d = last s" by (metis last_appendR)
  from d l assms(2) have "dropWhile is_space (rev ?d) = rev ?d"
    by (cases "rev ?d") (auto simp: last_rev hd_rev dest: arg_cong[where f=hd])
  then have "strip s = ?d" by (simp add: strip_def)
  with d l show ?thesis by simp
qed

lemma end_date_not_present:
  assumes "ends_digit w"
  shows "lower (strip (drop k w)) \<noteq> ustr ''present''"
proof (cases "drop k w = []")
  case True
  then show ?thesis by (simp add: strip_def lower_def ustr_def)
next
  case False
  then have l: "last (drop k w) = last w" by simp
  from assms have dg: "is_digit (last w)" by (simp add: ends_digit_def)
  then have ns: "\<not> is_space (last (drop k w))"
    by (auto simp: l is_digit_def is_space_def)
  from strip_keeps_last[OF False ns] l
  have s: "strip (drop k w) \<noteq> []" "last (strip (drop k w)) = last w" by simp_all
  then have "last (lower (strip (drop k w))) = lower_chr (last w)"
    by (simp add: lower_def last_map)
  moreover from dg have "lower_chr (last w) \<noteq> 116"
    by (auto simp: is_digit_def lower_chr_def)
  moreover have "last (ustr ''present'') = 116" by (simp add: ustr_def)
  ultimately show ?thesis by metis
qed

lemma range_duration_clock:
  assumes "w \<in> lang True date_pattern"
  shows "range_duration now1 w = range_duration now2 w"
proof -
  from date_pattern_lang[OF assms] show ?thesis
  proof
    assume e: "ends_digit w"
    show ?thesis
    proof (cases "length (re_split False dash_sep w) = 2")
      case False
      then show ?thesis by (simp add: range_duration_def)
    next
      case True
      then obtain a b where ab: "re_split False dash_sep w = [a, b]"
        by (auto simp: length_Suc_conv numeral_2_eq_2)
      from split_at_last[of w 0 "finditer False dash_sep w"] ab obtain k where "b = drop k w"
        by (auto simp: re_split_def)
      with end_date_not_present[OF e, of k] have "lower (strip b) \<noteq> ustr ''present''" by simp
      then show ?thesis by (simp add: range_duration_def ab Let_def)
    qed
  next
    assume "list_all (\<lambda>c. \<not> is_dash c) w"
    from finditer_no_dash[OF this] have "re_split False dash_sep w = [w]"
      by (simp add: re_split_def)
    then show ?thesis by (simp add: range_duration_def)
  qed
qed

lemma date_loop_clock:
  assumes "\<And>dr. dr \<in> set drs \<Longrightarrow> range_duration now1 dr = range_duration now2 dr"
  shows "date_loop now1 drs acc = date_loop now2 drs acc"
  using assms
proof (induction drs arbitrary: acc)
  case Nil
  then show ?case by simp
next
  case (Cons dr drs)
  obtain t n where acc: "acc = (t, n)" by (cases acc)
  from Cons.prems have h: "range_duration now1 dr = range_duration now2 dr" by simp
  from Cons.prems have "\<And>acc. date_loop now1 drs acc = date_loop now2 drs acc"
    by (intro Cons.IH) simp
  then show ?case by (simp add: acc h split: option.splits)
qed

lemma findall_lang: "w \<in> set (findall ic r t) \<Longrightarrow> w \<in> lang ic r"
  by (auto simp: findall_def dest: finditer_group0(1))

lemma extract_experience_clock:
  "extract_experience now1 t = extract_experience now2 t"
proof -
  have "date_loop now1 (findall True date_pattern t) (0, 0)
      = date_loop now2 (findall True date_pattern t) (0, 0)"
    by (rule date_loop_clock) (auto dest: findall_lang intro: range_duration_clock)
  then show ?thesis
    by (cases "explicit_experience patterns t") (simp_all add: extract_experience_def)
qed

text \<open>
  C9. The analysis of a text does not depend on the clock: for any two values of
  \<^verbatim>\<open>datetime.now().strftime("%b %Y")\<close> the results of \<open>analyze_resume\<close> are equal, the
  score included. The clock is read only where the end of a date range is the word
  \<^verbatim>\<open>present\<close>, and no match of the date pattern splits into two parts of which the second
  is that word.
\<close>

theorem scoring_independent_of_clock:
  "analyze_resume rf now1 text = analyze_resume rf now2 text"
  by (simp add: analyze_resume_def extract_experience_clock[of now1 _ now2])

theorem scoring_independent_of_clock_witness:
  "analyze_resume (init [] [ustr ''python''] [] 2) (ustr ''Jan 2020'') (ustr ''python, mar 2019 - present'')
     = analyze_resume (init [] [ustr ''python''] [] 2) (ustr ''Nov 2026'') (ustr ''python, mar 2019 - present'')
   \<and> findall True date_pattern (ustr ''python, mar 2019 - present'') = [ustr ''present'']"
proof -
  have "findall True date_pattern (ustr ''python, mar 2019 - present'') = [ustr ''present'']"
    by code_simp
  with scoring_independent_of_clock[of "init [] [ustr ''python''] [] 2" "ustr ''Jan 2020''"
      "ustr ''python, mar 2019 - present''" "ustr ''Nov 2026''"]
  show ?thesis by blast
qed


section \<open>The explicit experience patterns\<close>

text \<open>The groups a pattern can set; a run leaves every other group as it was.\<close>

fun gids :: "rx \<Rightarrow> nat set" where
  "gids (Group n a) = insert n (gids a)"
| "gids (Seq a b) = gids a \<union> gids b"
| "gids (Alt a b) = gids a \<union> gids b"
| "gids (Star a) = gids a"
| "gids r = {}"

lemma run_caps:
  "st' \<in> set (run ic r st) \<Longrightarrow> \<exists>new. caps st' = new @ caps st \<and> fst ` set new \<subseteq> gids r"
proof (induction ic r st arbitrary: st' rule: run.induct)
  case (1 ic st)
  then show ?case by simp
next
  case (2 ic d st)
  then show ?case by (auto dest!: step_sound)
next
  case (3 ic items st)
  then show ?case by (auto dest!: step_sound)
next
  case (4 ic st)
  then show ?case by (auto dest!: step_sound)
next
  case (5 ic st)
  then show ?case by (simp split: if_splits)
next
  case (6 ic a b st)
  from "6.prems" obtain s1 where s1: "s1 \<in> set (run ic a st)" and s2: "st' \<in> set (run ic b s1)"
    by auto
  from "6.IH"(1)[OF s1] obtain u where u: "caps s1 = u @ caps st" "fst ` set u \<subseteq> gids a" by blast
  from "6.IH"(2)[OF s1 s2] obtain v where v: "caps st' = v @ caps s1" "fst ` set v \<subseteq> gids b" by blast
  show ?case using u v by (intro exI[of _ "v @ u"]) auto
next
  case (7 ic a b st)
  from "7.prems" have "st' \<in> set (run ic a st) \<or> st' \<in> set (run ic b st)" by simp
  then show ?case
  proof
    assume "st' \<in> set (run ic a st)"
    from "7.IH"(1)[OF this] obtain u where "caps st' = u @ caps st" "fst ` set u \<subseteq> gids a" by blast
    then show ?thesis by (intro exI[of _ u]) auto
  next
    assume "st' \<in> set (run ic b st)"
    from "7.IH"(2)[OF this] obtain u where "caps st' = u @ caps st" "fst ` set u \<subseteq> gids b" by blast
    then show ?thesis by (intro exI[of _ u]) auto
  qed
next
  case (8 ic a st)
  from "8.prems" consider (stop) "st' = st"
    | (iter) s1 where "s1 \<in> set (run ic a st)" "length (rest s1) < length (rest st)"
        "st' \<in> set (run ic (Star a) s1)"
    using run_Star_iff[of st' ic a st] by blast
  then show ?case
  proof cases
    case stop
    then show ?thesis by simp
  next
    case iter
    from "8.IH"(1)[OF iter(1)] obtain u where u: "caps s1 = u @ caps st" "fst ` set u \<subseteq> gids a" by blast
    from "8.IH"(2)[OF iter(1) iter(2) iter(3)] obtain v where v: "caps st' = v @ caps s1" "fst ` set v \<subseteq> gids (Star a)"
      by blast
    show ?thesis using u v by (intro exI[of _ "v @ u"]) auto
  qed
next
  case (9 ic n a st)
  from "9.prems" obtain s1 where s1: "s1 \<in> set (run ic a st)" and eq: "st' = s1\<lparr>caps := (n, consumed st s1) # caps s1\<rparr>"
    by auto
  from "9.IH"[OF s1] obtain u where "caps s1 = u @ caps st" "fst ` set u \<subseteq> gids a" by blast
  with eq show ?case by (intro exI[of _ "(n, consumed st s1) # u"]) auto
qed

lemma run_frame:
  assumes "st' \<in> set (run ic r st)" and "n \<notin> gids r"
  shows "map_of (caps st') n = map_of (caps st) n"
proof -
  from run_caps[OF assms(1)] obtain new where new: "caps st' = new @ caps st" "fst ` set new \<subseteq> gids r"
    by blast
  with assms(2) have "n \<notin> fst ` set new" by auto
  then have "map_of new n = None" by (simp add: map_of_eq_None_iff)
  with new(1) show ?thesis by (simp add: map_add_def)
qed

text \<open>After a match of one of the five patterns group 1 holds a string that \<^verbatim>\<open>float\<close>
  converts.\<close>

definition captures_number :: "mstate \<Rightarrow> bool" where
  "captures_number st = (case map_of (caps st) 1 of None \<Rightarrow> False | Some g \<Rightarrow> float_of g \<noteq> None)"

lemma group1_then:
  assumes "st' \<in> set (run ic (Seq (Group 1 a) b) st)" and "1 \<notin> gids b"
    and "\<And>g. g \<in> lang ic a \<Longrightarrow> float_of g \<noteq> None"
  shows "captures_number st'"
proof -
  from assms(1) obtain s0 s1 where s0: "s0 \<in> set (run ic a st)"
    and s1: "s1 = s0\<lparr>caps := (1, consumed st s0) # caps s0\<rparr>"
    and s2: "st' \<in> set (run ic b s1)"
    by auto
  from run_consumed(1)[OF s0] assms(3) have "float_of (consumed st s0) \<noteq> None" by blast
  with s1 have "captures_number s1" by (simp add: captures_number_def)
  with run_frame[OF s2 assms(2)] show ?thesis by (simp add: captures_number_def)
qed

lemma after_prefix:
  assumes "st' \<in> set (run ic (Seq a b) st)"
    and "\<And>s s'. s' \<in> set (run ic b s) \<Longrightarrow> captures_number s'"
  shows "captures_number st'"
  using assms by auto

lemma cat_Cons: "cat (r # rs) = Seq r (cat rs)"
  by (simp add: cat_def)

lemma gids_lits [simp]: "gids (lits s) = {}"
  by (induction s) (simp_all add: lits_def)

lemma gids_cat [simp]: "gids (cat rs) = (\<Union>r\<in>set rs. gids r)"
  by (induction rs) (simp_all add: cat_def)

lemma gids_derived [simp]:
  "gids (lit s) = {}" "gids (opt a) = gids a" "gids (many1 a) = gids a"
  "gids digit = {}" "gids space = {}"
  by (simp_all add: lit_def opt_def many1_def digit_def space_def)

lemma gids_years [simp]: "gids years_rx = {}"
  by (simp add: years_rx_def)

lemma star_digit: "w \<in> lang ic (Star digit) \<Longrightarrow> list_all is_digit w"
  by (simp, erule star_list_all) (auto simp: digit_def)

lemma many1_digit:
  assumes "w \<in> lang ic (many1 digit)"
  shows "w \<noteq> [] \<and> list_all is_digit w"
proof -
  from assms obtain c v where "w = [c] @ v" "is_digit c" "v \<in> lang ic (Star digit)"
    by (auto simp: many1_def digit_def)
  with star_digit[of v ic] show ?thesis by simp
qed

lemma number_rx_lang:
  assumes "w \<in> lang False number_rx"
  shows "\<exists>ds1 ds2. ds1 \<noteq> [] \<and> list_all is_digit ds1 \<and> list_all is_digit ds2
           \<and> (w = ds1 @ ds2 \<or> w = ds1 @ 46 # ds2)"
proof -
  from assms obtain u p v where w: "w = u @ p @ v" and u: "u \<in> lang False (many1 digit)"
    and p: "p \<in> lang False (opt (Lit (ch CHR ''.'')))" and v: "v \<in> lang False (Star digit)"
    by (auto simp: number_rx_def)
  from p have "p = [] \<or> p = [46]" by (auto simp: opt_def ch_def)
  with w have "w = u @ v \<or> w = u @ 46 # v" by auto
  moreover from many1_digit[OF u] have "u \<noteq> []" "list_all is_digit u" by simp_all
  moreover note star_digit[OF v]
  ultimately show ?thesis by blast
qed

lemma float_of_digits:
  assumes "ds1 \<noteq> []" "list_all is_digit ds1" "list_all is_digit ds2"
  shows "float_of (ds1 @ ds2) \<noteq> None" and "float_of (ds1 @ 46 # ds2) \<noteq> None"
proof -
  from assms have tw: "takeWhile is_digit (ds1 @ ds2) = ds1 @ ds2"
    and dw: "dropWhile is_digit (ds1 @ ds2) = []"
    by (auto simp: list_all_iff)
  show "float_of (ds1 @ ds2) \<noteq> None"
    unfolding float_of_def Let_def tw dw using assms(1) by simp
  have nd: "\<not> is_digit 46" by (simp add: is_digit_def)
  from assms(2) have tw': "takeWhile is_digit (ds1 @ 46 # ds2) = ds1"
    and dw': "dropWhile is_digit (ds1 @ 46 # ds2) = 46 # ds2"
    by (simp_all add: list_all_iff nd)
  show "float_of (ds1 @ 46 # ds2) \<noteq> None"
    unfolding float_of_def Let_def tw' dw' using assms(1,3) by simp
qed

lemma float_of_number: "g \<in> lang False number_rx \<Longrightarrow> float_of g \<noteq> None"
  using number_rx_lang[of g] float_of_digits by blast

lemma float_of_many1_digit: "g \<in> lang False (many1 digit) \<Longrightarrow> float_of g \<noteq> None"
  using many1_digit[of g False] float_of_digits(1)[of g "[]"] by simp

lemma patterns_capture:
  "list_all (\<lambda>p. \<forall>st st'. st' \<in> set (run False p st) \<longrightarrow> captures_number st') patterns"
  unfolding patterns_def list.pred_inject
proof (intro conjI allI impI TrueI, goal_cases)
  case (1 st st')
  then show ?case
    by (simp only: cat_Cons) (erule group1_then, simp_all add: float_of_number flip: cat_Cons)
next
  case (2 st st')
  then show ?case
    apply (simp only: cat_Cons)
    apply (erule after_prefix, erule after_prefix, erule after_prefix, erule after_prefix)
    apply (erule group1_then)
     apply (simp_all add: float_of_number flip: cat_Cons)
    done
next
  case (3 st st')
  then show ?case
    by (simp only: cat_Cons) (erule group1_then, simp_all add: float_of_many1_digit flip: cat_Cons)
next
  case (4 st st')
  then show ?case
    by (simp only: cat_Cons) (erule group1_then, simp_all add: float_of_number flip: cat_Cons)
next
  case (5 st st')
  then show ?case
    by (simp only: cat_Cons) (erule group1_then, simp_all add: float_of_many1_digit flip: cat_Cons)
next
  case 6
  show ?case by simp
qed

lemma pattern_captures:
  assumes "p \<in> set patterns" and "st' \<in> set (run False p st)"
  shows "captures_number st'"
  using patterns_capture assms by (auto simp: list_all_iff)

lemma finditer_captures:
  assumes "p \<in> set patterns" and "m \<in> set (finditer False p t)"
  shows "\<exists>g v. group m 1 = Some g \<and> float_of g = Some v"
proof -
  from finditer_sound[OF assms(2)] obtain s s' where
    "s' \<in> set (run False p (s\<lparr>caps := []\<rparr>))" "m = mk_match s s'" by blast
  with pattern_captures[OF assms(1)] have "captures_number s'" "m_groups m = caps s'"
    by (simp_all add: mk_match_def)
  then show ?thesis
    by (auto simp: captures_number_def group_def split: option.splits)
qed

lemma explicit_experience_first:
  assumes "i < length ps"
    and "list_all (\<lambda>p. finditer False p t = []) (take i ps)"
    and "first_float (finditer False (ps ! i) t) = Some v"
  shows "explicit_experience ps t = Some v"
  using assms
proof (induction ps arbitrary: i)
  case Nil
  then show ?case by simp
next
  case (Cons p ps)
  show ?case
  proof (cases i)
    case 0
    with Cons.prems show ?thesis by simp
  next
    case (Suc j)
    with Cons.prems have "finditer False p t = []" "j < length ps"
      "list_all (\<lambda>p. finditer False p t = []) (take j ps)"
      "first_float (finditer False (ps ! j) t) = Some v"
      by simp_all
    with Cons.IH[of j] show ?thesis by simp
  qed
qed

text \<open>
  C4. The explicit patterns are tried in the order of their list. If the patterns before
  position \<open>i\<close> have no match in the text and the pattern at \<open>i\<close> has one, the result is
  the number in group 1 of the first match of that pattern: the conversion of group 1
  never fails, so later matches, later patterns and the date ranges are not consulted.
  In the witness the text holds \<^verbatim>\<open>experience: 5 years\<close>, a match of a later pattern with
  another number and a date range, and the result is 5.
\<close>

theorem first_pattern_with_match_wins:
  assumes "i < length patterns"
    and "list_all (\<lambda>p. finditer False p text = []) (take i patterns)"
    and "finditer False (patterns ! i) text = m # ms"
  shows "\<exists>g v. group m 1 = Some g \<and> float_of g = Some v \<and> extract_experience now text = Some v"
proof -
  from assms(1) have p: "patterns ! i \<in> set patterns" by simp
  from assms(3) have "m \<in> set (finditer False (patterns ! i) text)" by simp
  from finditer_captures[OF p this] obtain g v where g: "group m 1 = Some g" "float_of g = Some v"
    by blast
  with assms(3) have "first_float (finditer False (patterns ! i) text) = Some v" by simp
  from explicit_experience_first[OF assms(1,2) this]
  have "extract_experience now text = Some v" by (simp add: extract_experience_def)
  with g show ?thesis by blast
qed

theorem first_pattern_with_match_wins_witness:
  "finditer False (patterns ! 0) (ustr ''experience: 5 years, 7 yrs relevant, jan 2018 - dec 2019'') = []
   \<and> map (\<lambda>m. group m 1) (finditer False (patterns ! 1)
        (ustr ''experience: 5 years, 7 yrs relevant, jan 2018 - dec 2019'')) = [Some (ustr ''5'')]
   \<and> map (\<lambda>m. group m 1) (finditer False (patterns ! 4)
        (ustr ''experience: 5 years, 7 yrs relevant, jan 2018 - dec 2019'')) = [Some (ustr ''7'')]
   \<and> float_of (ustr ''5'') = Some 5
   \<and> extract_experience (ustr ''Nov 2026'')
        (ustr ''experience: 5 years, 7 yrs relevant, jan 2018 - dec 2019'') = Some 5"
proof -
  let ?t = "ustr ''experience: 5 years, 7 yrs relevant, jan 2018 - dec 2019''"
  have l: "1 < length patterns" by (simp add: patterns_def)
  have a: "finditer False (patterns ! 0) ?t = []" by code_simp
  have a': "list_all (\<lambda>p. finditer False p ?t = []) (take 1 patterns)"
    using a by (simp add: patterns_def)
  have b: "map (\<lambda>m. group m 1) (finditer False (patterns ! 1) ?t) = [Some (ustr ''5'')]"
    by code_simp
  have c: "map (\<lambda>m. group m 1) (finditer False (patterns ! 4) ?t) = [Some (ustr ''7'')]"
    by code_simp
  have f: "float_of (ustr ''5'') = Some 5" by code_simp
  from b obtain m where m: "finditer False (patterns ! 1) ?t = [m]" "group m 1 = Some (ustr ''5'')"
    by auto
  from first_pattern_with_match_wins[OF l a' m(1), of "ustr ''Nov 2026''"] m(2) f
  have "extract_experience (ustr ''Nov 2026'') ?t = Some 5" by auto
  with a b c f show ?thesis by blast
qed


section \<open>Whole-word occurrences\<close>

text \<open>A keyword's pattern has at most one match at a cursor: the keyword itself, with a
  word boundary before and after it.\<close>

lemma lits_Cons: "lits (d # kw) = Seq (Lit d) (lits kw)"
  by (simp add: lits_def)

lemma run_lits:
  "run False (lits kw) st =
     (if take (length kw) (rest st) = kw
      then [st\<lparr>seen := rev kw @ seen st, rest := drop (length kw) (rest st)\<rparr>] else [])"
proof (induction kw arbitrary: st)
  case Nil
  then show ?case by (simp add: lits_def)
next
  case (Cons d kw)
  show ?case
  proof (cases "rest st")
    case Nil
    then show ?thesis by (simp add: lits_Cons step_def)
  next
    case (Cons c cs)
    then show ?thesis
      by (simp add: lits_Cons step_def Cons.IH)
  qed
qed

lemma run_kw_pattern:
  "run False (kw_pattern kw) st =
     (if at_boundary (seen st) (rest st) \<and> take (length kw) (rest st) = kw
         \<and> at_boundary (rev kw @ seen st) (drop (length kw) (rest st))
      then [st\<lparr>seen := rev kw @ seen st, rest := drop (length kw) (rest st)\<rparr>] else [])"
  by (simp add: kw_pattern_def cat_def run_lits)

text \<open>
  A whole-word occurrence, stated without the matcher: the keyword stands in the text
  between \<open>pre\<close> and \<open>post\<close>, with a word boundary (\<^verbatim>\<open>\b\<close>: a word character on exactly
  one side) where it begins and where it ends. The pattern of a keyword has a match in
  a text exactly when the text has such an occurrence.
\<close>

definition whole_word :: "ustring \<Rightarrow> ustring \<Rightarrow> ustring \<Rightarrow> bool" where
  "whole_word pre kw post =
     (at_boundary (rev pre) (kw @ post) \<and> at_boundary (rev kw @ rev pre) post)"

lemma occurrence_sound:
  assumes "0 < occurrences kw t"
  shows "\<exists>pre post. t = pre @ kw @ post \<and> whole_word pre kw post"
proof -
  from assms obtain m where "m \<in> set (finditer False (kw_pattern kw) t)"
    by (cases "finditer False (kw_pattern kw) t") (auto simp: occurrences_def)
  from finditer_sound[OF this] obtain s s' where
    r: "s' \<in> set (run False (kw_pattern kw) (s\<lparr>caps := []\<rparr>))" and t: "rev (seen s) @ rest s = t"
    by blast
  from r have c: "at_boundary (seen s) (rest s)" "take (length kw) (rest s) = kw"
    "at_boundary (rev kw @ seen s) (drop (length kw) (rest s))"
    by (auto simp: run_kw_pattern split: if_splits)
  from c(2) have rs: "rest s = kw @ drop (length kw) (rest s)"
    by (metis append_take_drop_id)
  let ?pre = "rev (seen s)" and ?post = "drop (length kw) (rest s)"
  from t rs have "t = ?pre @ kw @ ?post" by simp
  moreover from c(1,3) rs have "whole_word ?pre kw ?post"
    by (simp add: whole_word_def)
  ultimately show ?thesis by blast
qed

lemma scan_finds:
  assumes "whole_word pre kw post"
  shows "rev (seen st) @ rest st = pre @ kw @ post \<Longrightarrow> length (seen st) \<le> length pre \<Longrightarrow>
         scan False (kw_pattern kw) False st \<noteq> []"
proof (induction "length pre - length (seen st)" arbitrary: st)
  case 0
  then have "length (seen st) = length pre" by simp
  with "0.prems"(1) have "rev (seen st) = pre" "rest st = kw @ post" by auto
  then have "seen st = rev pre" by (metis rev_rev_ident)
  with \<open>rest st = kw @ post\<close> assms
  have "run False (kw_pattern kw) (st\<lparr>caps := []\<rparr>)
      = [st\<lparr>caps := [], seen := rev kw @ rev pre, rest := post\<rparr>]"
    by (simp add: run_kw_pattern whole_word_def)
  then show ?case by (simp add: scan.simps admissible_def)
next
  case (Suc n)
  show ?case
  proof (cases "run False (kw_pattern kw) (st\<lparr>caps := []\<rparr>)")
    case (Cons a as)
    then show ?thesis by (simp add: scan.simps admissible_def)
  next
    case Nil
    from Suc.hyps(2) have lt: "length (seen st) < length pre" by simp
    with Suc.prems(1) have "rest st \<noteq> []"
      by (metis append_Nil2 length_append length_rev less_irrefl_nat trans_less_add1)
    then obtain c cs where cs: "rest st = c # cs" by (cases "rest st") auto
    let ?st = "st\<lparr>seen := c # seen st, rest := cs\<rparr>"
    from Suc.hyps(2) have "n = length pre - length (seen ?st)" by simp
    moreover from Suc.prems(1) cs have "rev (seen ?st) @ rest ?st = pre @ kw @ post" by simp
    moreover from lt have "length (seen ?st) \<le> length pre" by simp
    ultimately have "scan False (kw_pattern kw) False ?st \<noteq> []" by (rule Suc.hyps(1))
    with Nil cs show ?thesis by (simp add: scan.simps)
  qed
qed

lemma occurrence_complete:
  assumes "t = pre @ kw @ post" and "whole_word pre kw post"
  shows "0 < occurrences kw t"
  using scan_finds[OF assms(2), of "\<lparr>seen = [], rest = t, caps = []\<rparr>"] assms(1)
  by (simp add: occurrences_def finditer_def)

lemma occurrences_pos_iff:
  "0 < occurrences kw t \<longleftrightarrow> (\<exists>pre post. t = pre @ kw @ post \<and> whole_word pre kw post)"
  using occurrence_sound occurrence_complete by blast

text \<open>
  C3. Every candidate of the ranked output of a batch has an empty list of missing
  mandatory keywords and comes from a file of the batch in whose extracted text every
  mandatory keyword has a whole-word occurrence; the score plays no part. In the witness
  the first resume has the first keyword three times and the second never, the third
  has both keywords only inside longer words (\<^verbatim>\<open>Pythonic\<close>, \<^verbatim>\<open>mysql\<close>), and only the second
  resume is ranked.
\<close>

theorem ranked_only_with_whole_words:
  assumes "process_resumes rf now files = Inr ranked" and "c \<in> set ranked"
  shows "missing_mandatory c = [] \<and>
         (\<exists>f. f \<in> set files \<and> filename c = path f \<and>
              list_all (\<lambda>kw. \<exists>pre post. extract_text f = pre @ kw @ post \<and> whole_word pre kw post)
                (mandatory rf))"
proof -
  from ranked_have_occurrences[OF assms] obtain f where
    m: "missing_mandatory c = []" and f: "f \<in> set files" "filename c = path f"
    and o: "list_all (\<lambda>kw. 0 < occurrences kw (extract_text f)) (mandatory rf)"
    by blast
  from o have "list_all (\<lambda>kw. \<exists>pre post. extract_text f = pre @ kw @ post \<and> whole_word pre kw post)
                (mandatory rf)"
    by (simp add: list_all_iff occurrences_pos_iff)
  with m f show ?thesis by blast
qed

theorem ranked_only_with_whole_words_witness:
  "\<exists>c. process_resumes (init [] [ustr ''Python'', ustr ''SQL''] [] 5) (ustr ''Nov 2026'')
          [pdf_file ''a.pdf'' [''Python, python and PYTHON''],
           pdf_file ''b.pdf'' [''Python and SQL''],
           pdf_file ''c.pdf'' [''Pythonic mysql-free zone'']]
        = Inr [c]
      \<and> filename c = ustr ''b.pdf'' \<and> missing_mandatory c = []
      \<and> list_all (\<lambda>kw. \<exists>pre post. ustr ''python and sql'' = pre @ kw @ post \<and> whole_word pre kw post)
           [ustr ''python'', ustr ''sql'']
      \<and> occurrences (ustr ''python'') (ustr ''python, python and python'') = 3
      \<and> \<not> (\<exists>pre post. ustr ''python, python and python'' = pre @ ustr ''sql'' @ post
              \<and> whole_word pre (ustr ''sql'') post)
      \<and> \<not> (\<exists>pre post. ustr ''pythonic mysql-free zone'' = pre @ ustr ''python'' @ post
              \<and> whole_word pre (ustr ''python'') post)
      \<and> \<not> (\<exists>pre post. ustr ''pythonic mysql-free zone'' = pre @ ustr ''sql'' @ post
              \<and> whole_word pre (ustr ''sql'') post)"
proof -
  let ?rf = "init [] [ustr ''Python'', ustr ''SQL''] [] 5"
  let ?a = "pdf_file ''a.pdf'' [''Python, python and PYTHON'']"
  let ?b = "pdf_file ''b.pdf'' [''Python and SQL'']"
  let ?c = "pdf_file ''c.pdf'' [''Pythonic mysql-free zone'']"
  have "map_sum id (map filename) (process_resumes ?rf (ustr ''Nov 2026'') [?a, ?b, ?c])
      = Inr [ustr ''b.pdf'']"
    by code_simp
  then obtain c where r: "process_resumes ?rf (ustr ''Nov 2026'') [?a, ?b, ?c] = Inr [c]"
    and n: "filename c = ustr ''b.pdf''"
    by (cases "process_resumes ?rf (ustr ''Nov 2026'') [?a, ?b, ?c]") auto
  from ranked_only_with_whole_words[OF r, of c] obtain f where
    m: "missing_mandatory c = []" and f: "f \<in> set [?a, ?b, ?c]" "filename c = path f"
    and w: "list_all (\<lambda>kw. \<exists>pre post. extract_text f = pre @ kw @ post \<and> whole_word pre kw post)
              (mandatory ?rf)"
    by auto
  have "path ?a \<noteq> ustr ''b.pdf''" "path ?c \<noteq> ustr ''b.pdf''"
    by (simp_all add: pdf_file_def ustr_def)
  with f n have "f = ?b" by auto
  moreover have "extract_text ?b = ustr ''python and sql''" by code_simp
  moreover have "mandatory ?rf = [ustr ''python'', ustr ''sql'']" by code_simp
  ultimately have w': "list_all (\<lambda>kw. \<exists>pre post. ustr ''python and sql'' = pre @ kw @ post
      \<and> whole_word pre kw post) [ustr ''python'', ustr ''sql'']"
    using w by simp
  have p: "occurrences (ustr ''python'') (ustr ''python, python and python'') = 3"
    by code_simp
  have "occurrences (ustr ''sql'') (ustr ''python, python and python'') = 0"
    by code_simp
  then have s: "\<not> (\<exists>pre post. ustr ''python, python and python'' = pre @ ustr ''sql'' @ post
              \<and> whole_word pre (ustr ''sql'') post)"
    using occurrences_pos_iff[of "ustr ''sql''" "ustr ''python, python and python''"] by simp
  have "occurrences (ustr ''python'') (ustr ''pythonic mysql-free zone'') = 0"
    by code_simp
  then have np: "\<not> (\<exists>pre post. ustr ''pythonic mysql-free zone'' = pre @ ustr ''python'' @ post
              \<and> whole_word pre (ustr ''python'') post)"
    using occurrences_pos_iff[of "ustr ''python''" "ustr ''pythonic mysql-free zone''"] by simp
  have "occurrences (ustr ''sql'') (ustr ''pythonic mysql-free zone'') = 0"
    by code_simp
  then have ns: "\<not> (\<exists>pre post. ustr ''pythonic mysql-free zone'' = pre @ ustr ''sql'' @ post
              \<and> whole_word pre (ustr ''sql'') post)"
    using occurrences_pos_iff[of "ustr ''sql''" "ustr ''pythonic mysql-free zone''"] by simp
  from r n m w' p s np ns show ?thesis by blast
qed


text \<open>
  The count as the specification words it: the number of whole-word, case-insensitive
  matches of a keyword, taken as a literal string, in a text. \<open>word_here\<close> says that the
  keyword stands at the cursor, compared without case and with a word boundary on each
  side; \<open>count_words\<close> counts such places from the left, the next one sought where the
  last one ended (or one character on, for the empty keyword).
\<close>

definition word_here :: "ustring \<Rightarrow> ustring \<Rightarrow> ustring \<Rightarrow> bool" where
  "word_here kw before after =
     (length kw \<le> length after
      \<and> lower (take (length kw) after) = lower kw
      \<and> whole_word (rev before) (take (length kw) after) (drop (length kw) after))"

function count_words :: "ustring \<Rightarrow> ustring \<Rightarrow> ustring \<Rightarrow> nat" where
  "count_words kw before after =
     (if word_here kw before after then
        (if kw = [] then (case after of [] \<Rightarrow> 1 | c # cs \<Rightarrow> 1 + count_words kw (c # before) cs)
         else 1 + count_words kw (rev (take (length kw) after) @ before) (drop (length kw) after))
      else (case after of [] \<Rightarrow> 0 | c # cs \<Rightarrow> count_words kw (c # before) cs))"
  by pat_completeness auto
termination
proof (relation "measure (\<lambda>(kw, before, after). length after)", goal_cases)
  case 1
  show ?case by simp
next
  case (2 kw before after c cs)
  then show ?case by simp
next
  case (3 kw before after)
  then have "kw \<noteq> []" "length kw \<le> length after"
    by (simp_all add: word_here_def)
  then show ?case by (cases kw) simp_all
next
  case (4 kw before after c cs)
  then show ?case by simp
qed

declare count_words.simps [simp del]

lemma is_word_lower [simp]: "is_word (lower_chr c) = is_word c"
  by (auto simp: is_word_def lower_chr_def)

lemma at_boundary_lower [simp]: "at_boundary (lower x) (lower y) = at_boundary x y"
  by (cases x; cases y) (simp_all add: at_boundary_def lower_def)

lemma length_lower [simp]: "length (lower s) = length s"
  by (simp add: lower_def)

lemma lower_append [simp]: "lower (x @ y) = lower x @ lower y"
  by (simp add: lower_def)

lemma lower_rev: "lower (rev x) = rev (lower x)"
  by (simp add: lower_def rev_map)

lemma take_lower: "take n (lower s) = lower (take n s)"
  by (simp add: lower_def take_map)

lemma drop_lower: "drop n (lower s) = lower (drop n s)"
  by (simp add: lower_def drop_map)

text \<open>At a cursor of the lower-cased text the pattern of the lower-cased keyword has a
  match exactly when the keyword stands there in the text, compared without case.\<close>

lemma run_kw_lower:
  assumes "seen st = lower b" and "rest st = lower a"
  shows "run False (kw_pattern (lower kw)) (st\<lparr>caps := []\<rparr>) =
     (if word_here kw b a
      then [st\<lparr>caps := [], seen := lower (rev (take (length kw) a) @ b),
               rest := lower (drop (length kw) a)\<rparr>]
      else [])"
proof (cases "word_here kw b a")
  case True
  then have l: "length kw \<le> length a" and e: "lower (take (length kw) a) = lower kw"
    and w1: "at_boundary b a" and w2: "at_boundary (rev (take (length kw) a) @ b) (drop (length kw) a)"
    by (simp_all add: word_here_def whole_word_def)
  from e have t: "take (length kw) (lower a) = lower kw" by (simp add: take_lower)
  from e have r: "rev (lower kw) @ lower b = lower (rev (take (length kw) a) @ b)"
    by (simp add: lower_rev)
  from w2 have "at_boundary (lower (rev (take (length kw) a) @ b)) (lower (drop (length kw) a))"
    by (simp only: at_boundary_lower)
  with r have w2': "at_boundary (rev (lower kw) @ lower b) (drop (length kw) (lower a))"
    by (simp add: drop_lower)
  from True w1 t w2' r show ?thesis
    by (simp add: run_kw_pattern assms drop_lower)
next
  case False
  have "\<not> (at_boundary (lower b) (lower a) \<and> take (length kw) (lower a) = lower kw
         \<and> at_boundary (rev (lower kw) @ lower b) (drop (length kw) (lower a)))"
  proof
    assume h: "at_boundary (lower b) (lower a) \<and> take (length kw) (lower a) = lower kw
         \<and> at_boundary (rev (lower kw) @ lower b) (drop (length kw) (lower a))"
    then have t: "take (length kw) (lower a) = lower kw" by simp
    then have "length (take (length kw) (lower a)) = length kw" by simp
    then have l: "length kw \<le> length a" by simp
    from t have e: "lower (take (length kw) a) = lower kw" by (simp add: take_lower)
    then have r: "rev (lower kw) @ lower b = lower (rev (take (length kw) a) @ b)"
      by (simp add: lower_rev)
    from h have "at_boundary (lower (rev (take (length kw) a) @ b)) (lower (drop (length kw) a))"
      by (simp only: r drop_lower)
    then have "at_boundary (rev (take (length kw) a) @ b) (drop (length kw) a)"
      by (simp only: at_boundary_lower)
    with h l e have "word_here kw b a"
      by (simp add: word_here_def whole_word_def)
    with False show False by simp
  qed
  with False show ?thesis
    by (simp add: run_kw_pattern assms)
qed

text \<open>The scanner on the lower-cased text and keyword finds the places \<open>count_words\<close> counts.\<close>

lemma scan_count_aux:
  "ic = False \<Longrightarrow> r = kw_pattern (lower kw) \<Longrightarrow> seen st = lower b \<Longrightarrow> rest st = lower a \<Longrightarrow>
   length (scan ic r adv st) =
     (if adv \<and> kw = [] then (case a of [] \<Rightarrow> 0 | c # cs \<Rightarrow> count_words kw (c # b) cs)
      else count_words kw b a)"
proof (induction ic r adv st arbitrary: b a rule: scan.induct)
  case (1 ic r adv st)
  note ic = "1.prems"(1) and r = "1.prems"(2) and sb = "1.prems"(3) and ra = "1.prems"(4)
  let ?n = "length kw"
  let ?st' = "st\<lparr>caps := [], seen := lower (rev (take ?n a) @ b), rest := lower (drop ?n a)\<rparr>"
  have run: "run ic r (st\<lparr>caps := []\<rparr>) = (if word_here kw b a then [?st'] else [])"
    unfolding ic r by (rule run_kw_lower[OF sb ra])
  show ?case
  proof (cases "word_here kw b a \<and> (if adv then kw \<noteq> [] else True)")
    case True
    then have W: "word_here kw b a" by simp
    then have le: "?n \<le> length a" by (simp add: word_here_def)
    from True le have adm: "admissible adv st ?st'"
      by (cases kw) (auto simp: admissible_def ra)
    from run W adm have f: "filter (admissible adv st) (run ic r (st\<lparr>caps := []\<rparr>)) = [?st']"
      by simp
    then have s: "scan ic r adv st
        = mk_match st ?st' # scan ic r (length (rest ?st') = length (rest st)) ?st'"
      by (subst scan.simps) simp
    have adv': "(length (rest ?st') = length (rest st)) = (kw = [])"
      using le by (cases kw) (auto simp: ra)
    have "length (scan ic r (length (rest ?st') = length (rest st)) ?st') =
      (if (length (rest ?st') = length (rest st)) \<and> kw = []
       then (case drop ?n a of [] \<Rightarrow> 0 | c # cs \<Rightarrow> count_words kw (c # (rev (take ?n a) @ b)) cs)
       else count_words kw (rev (take ?n a) @ b) (drop ?n a))"
      by (rule "1.IH"(2)[OF f ic r]) simp_all
    with s adv' have len: "length (scan ic r adv st) = 1 +
      (if kw = []
       then (case drop ?n a of [] \<Rightarrow> 0 | c # cs \<Rightarrow> count_words kw (c # (rev (take ?n a) @ b)) cs)
       else count_words kw (rev (take ?n a) @ b) (drop ?n a))"
      by simp
    from True have na: "\<not> (adv \<and> kw = [])" by (auto split: if_splits)
    show ?thesis
    proof (cases "kw = []")
      case True
      with len W na show ?thesis
        by (subst count_words.simps) (simp split: list.splits)
    next
      case False
      with len W na show ?thesis
        by (subst count_words.simps) simp
    qed
  next
    case False
    have f: "filter (admissible adv st) (run ic r (st\<lparr>caps := []\<rparr>)) = []"
    proof (cases "word_here kw b a")
      case W: True
      with False have "adv" "kw = []" by (auto split: if_splits)
      with run W show ?thesis by (simp add: admissible_def ra)
    next
      case W: False
      with run show ?thesis by simp
    qed
    have nW: "\<not> (adv \<and> kw = []) \<Longrightarrow> \<not> word_here kw b a"
      using False by (auto split: if_splits)
    show ?thesis
    proof (cases a)
      case Nil
      with ra have "rest st = []" by (simp add: lower_def)
      with f have "scan ic r adv st = []" by (subst scan.simps) simp
      with Nil nW show ?thesis
        by (subst count_words.simps) auto
    next
      case (Cons c cs)
      with ra have rs: "rest st = lower_chr c # lower cs" by (simp add: lower_def)
      let ?st2 = "st\<lparr>seen := lower_chr c # seen st, rest := lower cs\<rparr>"
      from f rs have s: "scan ic r adv st = scan ic r False ?st2"
        by (subst scan.simps) simp
      have "length (scan ic r False ?st2) =
        (if False \<and> kw = [] then (case cs of [] \<Rightarrow> 0 | c' # cs' \<Rightarrow> count_words kw (c' # c # b) cs')
         else count_words kw (c # b) cs)"
        by (rule "1.IH"(1)[OF f rs ic r]) (simp_all add: sb lower_def)
      with s have len: "length (scan ic r adv st) = count_words kw (c # b) cs" by simp
      show ?thesis
      proof (cases "adv \<and> kw = []")
        case True
        with len Cons show ?thesis by simp
      next
        case False
        with nW have "\<not> word_here kw b a" by simp
        with len Cons False show ?thesis
          by (subst count_words.simps) simp
      qed
    qed
  qed
qed

lemma occurrences_count_words:
  "occurrences (lower kw) (lower t) = count_words kw [] t"
  using scan_count_aux[of False "kw_pattern (lower kw)" kw "\<lparr>seen = [], rest = lower t, caps = []\<rparr>" "[]" t False]
  by (simp add: occurrences_def finditer_def lower_def)

lemma analyze_resume_counts:
  assumes "analyze_resume rf now t = Inr a" and "k \<in> set (mandatory rf) \<union> set (optional rf)"
  shows "get_count (keyword_counts a) k = occurrences k t"
proof -
  obtain missing counts0 sections where
    ml: "mandatory_loop t (mandatory rf) ([], [], []) = (missing, counts0, sections)"
    by (cases "mandatory_loop t (mandatory rf) ([], [], [])")
  from assms(1) have "keyword_counts a = optional_loop t (optional rf) counts0"
    by (auto simp: analyze_resume_def Let_def ml split: sum.splits)
  with final_counts[OF ml assms(2)] show ?thesis by simp
qed

text \<open>For a keyword that begins and ends with a word character, a word boundary on each
  side means that the neighbours of the occurrence, where there are any, are not word
  characters.\<close>

lemma whole_word_bounded:
  assumes "kw \<noteq> []" and "is_word (hd kw)" and "is_word (last kw)"
  shows "whole_word pre kw post \<longleftrightarrow>
           (case rev pre of [] \<Rightarrow> True | c # _ \<Rightarrow> \<not> is_word c)
         \<and> (case post of [] \<Rightarrow> True | c # _ \<Rightarrow> \<not> is_word c)"
proof -
  from assms(1) obtain d ds where kw: "kw = d # ds" by (cases kw) auto
  from assms(1) obtain e es where rkw: "rev kw = e # es" by (cases "rev kw") auto
  with assms(1,3) have e: "is_word e" by (metis hd_rev list.sel(1))
  from kw assms(2) have d: "is_word d" by simp
  show ?thesis
    by (cases "rev pre"; cases post) (simp_all add: whole_word_def at_boundary_def kw[symmetric] rkw e, simp_all add: kw d)
qed

text \<open>
  C6. For every keyword of either list and every text, the count that \<open>analyze_resume\<close>
  stores for the keyword, on the lower-cased text that \<open>extract_text\<close> hands over, is the
  number of whole-word, case-insensitive occurrences of the keyword as a literal string
  in the text: the keyword compared without case, with a word boundary (\<^verbatim>\<open>\b\<close>) on each
  side. In the witness \<^verbatim>\<open>Python\<close> and \<^verbatim>\<open>python\<close> count for the keyword \<^verbatim>\<open>Python\<close> and
  \<^verbatim>\<open>Pythonic\<close> does not. A word boundary needs a word character on exactly one side, so
  a keyword that ends in another character, like \<^verbatim>\<open>c++\<close>, counts only where a word
  character follows it: \<^verbatim>\<open>C++ code\<close> in the witness counts 0 (lemma \<open>whole_word_bounded\<close>
  is the reading for keywords that begin and end with a word character).
\<close>

theorem keyword_count_is_whole_word_count:
  assumes "analyze_resume (init jd mandatory_keywords optional_keywords min_exp) now (lower t) = Inr a"
    and "kw \<in> set mandatory_keywords \<union> set optional_keywords"
  shows "get_count (keyword_counts a) (lower kw) = count_words kw [] t"
proof -
  let ?rf = "init jd mandatory_keywords optional_keywords min_exp"
  from assms(2) have "lower kw \<in> set (mandatory ?rf) \<union> set (optional ?rf)"
    by (auto simp: init_def)
  from analyze_resume_counts[OF assms(1) this] show ?thesis
    by (simp add: occurrences_count_words)
qed

theorem keyword_count_is_whole_word_count_witness:
  "\<exists>a. analyze_resume (init [] [ustr ''Python''] [ustr ''c++''] 2) (ustr ''Nov 2026'')
          (lower (ustr ''Python and python. Pythonic C++ code'')) = Inr a
      \<and> get_count (keyword_counts a) (ustr ''python'') = 2
      \<and> count_words (ustr ''Python'') [] (ustr ''Python and python. Pythonic C++ code'') = 2
      \<and> count_words (ustr ''python'') [] (ustr ''Python'') = 1
      \<and> count_words (ustr ''python'') [] (ustr ''pythonic'') = 0
      \<and> get_count (keyword_counts a) (ustr ''c++'') = 0
      \<and> extract_text (pdf_file ''a.pdf'' [''Python and python. Pythonic C++ code''])
          = lower (ustr ''Python and python. Pythonic C++ code'')"
proof -
  let ?rf = "init [] [ustr ''Python''] [ustr ''c++''] 2"
  let ?t = "ustr ''Python and python. Pythonic C++ code''"
  have "min_experience ?rf \<noteq> 0" by (simp add: init_def)
  from analyze_resume_total[OF this, of "ustr ''Nov 2026''" "lower ?t"]
  obtain a where a: "analyze_resume ?rf (ustr ''Nov 2026'') (lower ?t) = Inr a" by blast
  have c: "count_words (ustr ''Python'') [] ?t = 2" by code_simp
  have c1: "count_words (ustr ''python'') [] (ustr ''Python'') = 1" by code_simp
  have c0: "count_words (ustr ''python'') [] (ustr ''pythonic'') = 0" by code_simp
  have cpp: "count_words (ustr ''c++'') [] ?t = 0" by code_simp
  have lp: "lower (ustr ''Python'') = ustr ''python''" and lc: "lower (ustr ''c++'') = ustr ''c++''"
    by code_simp+
  from keyword_count_is_whole_word_count[OF a, of "ustr ''Python''"] c lp
  have g: "get_count (keyword_counts a) (ustr ''python'') = 2" by simp
  from keyword_count_is_whole_word_count[OF a, of "ustr ''c++''"] cpp lc
  have g': "get_count (keyword_counts a) (ustr ''c++'') = 0" by simp
  have x: "extract_text (pdf_file ''a.pdf'' [''Python and python. Pythonic C++ code'']) = lower ?t"
    by code_simp
  from a g c c1 c0 g' x show ?thesis by blast
qed

end
